theory Spec2Isabelle
  imports Complex_Main "HOL-Library.Char_ord"
begin

section \<open>Python values and errors\<close>

text \<open>
  Exceptions of the Python code are values. Only the exceptions that the modelled functions can
  raise themselves are listed.
\<close>

datatype py_error = ValueError | ZeroDivisionError

text \<open>
  The values a \<^verbatim>\<open>Dict[str, Any]\<close> payload holds. A \<^verbatim>\<open>dict\<close> is the list of its items in
  insertion order (the order \<^verbatim>\<open>data.items()\<close> iterates in); Python keeps the keys of one
  dict distinct. Python floats are modelled as real numbers.
\<close>

datatype pyval =
    PStr string
  | PDict "(string \<times> pyval) list"
  | PList "pyval list"
  | PInt int
  | PFloat real
  | PBool bool
  | PNone

section \<open>The ring buffer: observability/ring\_buffer.py\<close>

datatype BufferPolicy = DROP_OLDEST | BLOCK | DROP_NEWEST

record LogEntry =
  timestamp :: real
  level :: string
  message :: string
  module :: string
  function_name :: string
  line :: int
  correlation_id :: "string option"
  user_id :: "string option"
  extra :: "(string \<times> pyval) list"

text \<open>
  The constructor of the dataclass with its defaults: no correlation id, no user id, and the
  empty dict that \<^verbatim>\<open>__post_init__\<close> puts in \<^verbatim>\<open>extra\<close>.
\<close>

definition LogEntry_init :: "real \<Rightarrow> string \<Rightarrow> string \<Rightarrow> string \<Rightarrow> string \<Rightarrow> int \<Rightarrow> LogEntry" where
  "LogEntry_init ts lv msg md fn lineno =
     \<lparr> timestamp = ts, level = lv, message = msg, module = md, function_name = fn, line = lineno,
       correlation_id = None, user_id = None, extra = [] \<rparr>"

text \<open>What the module's \<^verbatim>\<open>logger.warning\<close> calls record, in order.\<close>

datatype log_warning =
    BufferFullTimeout real
  | BufferUsageHigh real nat nat

text \<open>
  The fields of \<^verbatim>\<open>RingBuffer\<close>; the leading underscore of the private ones is dropped
  (\<open>buffer\<close> is \<^verbatim>\<open>_buffer\<close>, \<open>dropped_count\<close> is \<^verbatim>\<open>_dropped_count\<close>, the counter of
  evictions under DROP\_OLDEST, and \<open>drop_count\<close> is \<^verbatim>\<open>_drop_count\<close>, the counter that
  \<^verbatim>\<open>get_stats\<close> reports as \<^verbatim>\<open>total_dropped\<close>). \<open>warnings\<close> is the logger's sink. The
  \<^verbatim>\<open>asyncio.Lock\<close> is not a field: every public method holds it for its whole body, so the
  methods run one after another and each is a function from state to state.
\<close>

record RingBuffer =
  max_size :: nat
  policy :: BufferPolicy
  drop_warning_threshold :: real
  buffer :: "LogEntry list"
  dropped_count :: nat
  last_warning :: real
  add_count :: nat
  drop_count :: nat
  start_time :: real
  warnings :: "log_warning list"

text \<open>
  \<^verbatim>\<open>RingBuffer.__init__\<close>. \<^verbatim>\<open>deque(maxlen=max_size)\<close> raises ValueError on a negative
  \<^verbatim>\<open>max_size\<close>, so a constructed buffer has a natural number as its \<open>max_size\<close>. \<open>now\<close> is
  the reading of \<^verbatim>\<open>time.time()\<close>.
\<close>

definition RingBuffer_init :: "int \<Rightarrow> BufferPolicy \<Rightarrow> real \<Rightarrow> real \<Rightarrow> py_error + RingBuffer" where
  "RingBuffer_init max_size_arg policy_arg threshold now =
     (if max_size_arg < 0 then Inl ValueError
      else Inr \<lparr> max_size = nat max_size_arg, policy = policy_arg,
                 drop_warning_threshold = threshold, buffer = [],
                 dropped_count = 0, last_warning = 0, add_count = 0, drop_count = 0,
                 start_time = now, warnings = [] \<rparr>)"

text \<open>\<^verbatim>\<open>initialize_log_buffer\<close>: the policy name selects the policy, DROP\_OLDEST by default.\<close>

definition initialize_log_buffer :: "int \<Rightarrow> string \<Rightarrow> real \<Rightarrow> py_error + RingBuffer" where
  "initialize_log_buffer max_size_arg policy_name now =
     RingBuffer_init max_size_arg
       (if policy_name = ''block'' then BLOCK
        else if policy_name = ''drop_newest'' then DROP_NEWEST
        else DROP_OLDEST)
       0.8 now"

text \<open>
  \<^verbatim>\<open>deque.append\<close> on a deque with a \<^verbatim>\<open>maxlen\<close>: the item is appended on the right and,
  when the deque is then longer than \<^verbatim>\<open>maxlen\<close>, one item is popped on the left.
\<close>

definition deque_append :: "nat \<Rightarrow> 'a list \<Rightarrow> 'a \<Rightarrow> 'a list" where
  "deque_append maxlen d x =
     (let d' = d @ [x] in if maxlen < length d' then tl d' else d')"

text \<open>
  The readings of \<^verbatim>\<open>time.time()\<close> that one call of \<^verbatim>\<open>add\<close> can make: the one at the start of
  \<^verbatim>\<open>_wait_for_space\<close>, the ones of its loop (one for each round, in order) and the one of
  \<^verbatim>\<open>_warn_high_usage\<close>.
\<close>

record clock =
  t_wait_start :: real
  t_wait_polls :: "real list"
  t_warn :: real

definition warn_high_usage :: "RingBuffer \<Rightarrow> real \<Rightarrow> real \<Rightarrow> RingBuffer" where
  "warn_high_usage s usage_ratio now =
     (if now - last_warning s > 60
      then s\<lparr> warnings := warnings s @ [BufferUsageHigh usage_ratio (length (buffer s)) (max_size s)],
              last_warning := now \<rparr>
      else s)"

text \<open>
  The loop of \<^verbatim>\<open>_wait_for_space\<close>. It runs inside \<^verbatim>\<open>add\<close>, which holds the lock, and every
  method that removes entries takes the same lock first: the buffer the loop looks at does not
  change between rounds. Each round reads the clock once; \<open>None\<close> says that the loop is still
  waiting when the readings handed to it are used up.
\<close>

fun wait_loop :: "RingBuffer \<Rightarrow> LogEntry \<Rightarrow> real \<Rightarrow> real \<Rightarrow> real list \<Rightarrow> (bool \<times> RingBuffer) option" where
  "wait_loop s entry timeout t0 polls =
     (if max_size s \<le> length (buffer s) then
        (case polls of
           [] \<Rightarrow> None
         | t # polls' \<Rightarrow>
             if t - t0 > timeout
             then Some (False, s\<lparr> drop_count := drop_count s + 1,
                                  warnings := warnings s @ [BufferFullTimeout timeout] \<rparr>)
             else wait_loop s entry timeout t0 polls')
      else Some (True, s\<lparr> buffer := deque_append (max_size s) (buffer s) entry,
                          add_count := add_count s + 1 \<rparr>))"

definition wait_for_space :: "RingBuffer \<Rightarrow> LogEntry \<Rightarrow> real \<Rightarrow> clock \<Rightarrow> (bool \<times> RingBuffer) option" where
  "wait_for_space s entry timeout clk = wait_loop s entry timeout (t_wait_start clk) (t_wait_polls clk)"

text \<open>
  Lines 79 to 87 of \<^verbatim>\<open>add\<close>: append, count, and warn on high usage. The division
  \<^verbatim>\<open>len(self._buffer) / self.max_size\<close> raises ZeroDivisionError for \<^verbatim>\<open>max_size = 0\<close>, after
  the append and the count.
\<close>

definition add_append :: "RingBuffer \<Rightarrow> LogEntry \<Rightarrow> clock \<Rightarrow> (py_error + bool) \<times> RingBuffer" where
  "add_append s entry clk =
     (let s1 = s\<lparr> buffer := deque_append (max_size s) (buffer s) entry,
                   add_count := add_count s + 1 \<rparr>
      in if max_size s1 = 0 then (Inl ZeroDivisionError, s1)
         else let usage_ratio = real (length (buffer s1)) / real (max_size s1)
              in if usage_ratio \<ge> drop_warning_threshold s1
                 then (Inr True, warn_high_usage s1 usage_ratio (t_warn clk))
                 else (Inr True, s1))"

text \<open>
  \<^verbatim>\<open>RingBuffer.add\<close>: the value returned or the exception raised, with the buffer after the
  call; \<open>None\<close> when the call is still waiting in \<^verbatim>\<open>_wait_for_space\<close>.
\<close>

definition add :: "RingBuffer \<Rightarrow> LogEntry \<Rightarrow> clock \<Rightarrow> ((py_error + bool) \<times> RingBuffer) option" where
  "add s entry clk =
     (if max_size s \<le> length (buffer s) then
        (case policy s of
           DROP_OLDEST \<Rightarrow>
             Some (add_append (s\<lparr> dropped_count := dropped_count s + 1,
                                   drop_count := drop_count s + 1 \<rparr>) entry clk)
         | BLOCK \<Rightarrow>
             (case wait_for_space s entry 1.0 clk of
                None \<Rightarrow> None
              | Some (r, s') \<Rightarrow> Some (Inr r, s'))
         | DROP_NEWEST \<Rightarrow> Some (Inr False, s\<lparr> drop_count := drop_count s + 1 \<rparr>))
      else Some (add_append s entry clk))"

text \<open>
  A sequence of \<^verbatim>\<open>add\<close> calls, each with its entry and its clock readings: the results of the
  calls in order and the buffer after the last one. A caller may catch an exception and go on,
  so the sequence continues after a call that raised.
\<close>

fun add_seq :: "RingBuffer \<Rightarrow> (LogEntry \<times> clock) list \<Rightarrow> ((py_error + bool) list \<times> RingBuffer) option" where
  "add_seq s [] = Some ([], s)"
| "add_seq s ((entry, clk) # calls) =
     (case add s entry clk of
        None \<Rightarrow> None
      | Some (r, s') \<Rightarrow>
          (case add_seq s' calls of
             None \<Rightarrow> None
           | Some (rs, s'') \<Rightarrow> Some (r # rs, s'')))"

text \<open>Python's slice \<^verbatim>\<open>xs[i:]\<close>: a negative \<open>i\<close> counts from the end, and the bounds are clipped.\<close>

definition py_slice_from :: "'a list \<Rightarrow> int \<Rightarrow> 'a list" where
  "py_slice_from xs i =
     (let n = int (length xs);
          j = (if i < 0 then max 0 (n + i) else min i n)
      in drop (nat j) xs)"

definition get_recent :: "RingBuffer \<Rightarrow> int \<Rightarrow> LogEntry list" where
  "get_recent s limit =
     (if limit \<ge> int (length (buffer s)) then buffer s
      else py_slice_from (buffer s) (- limit))"

definition get_all :: "RingBuffer \<Rightarrow> LogEntry list" where
  "get_all s = buffer s"

definition clear :: "RingBuffer \<Rightarrow> nat \<times> RingBuffer" where
  "clear s = (length (buffer s), s\<lparr> buffer := [] \<rparr>)"

text \<open>
  The filter tests of \<^verbatim>\<open>search\<close> are written \<^verbatim>\<open>if level and entry.level != level\<close>: the
  filter is applied when the argument is truthy, which \<^verbatim>\<open>None\<close>, the empty string and
  \<^verbatim>\<open>0.0\<close> are not.
\<close>

definition truthy_str :: "string option \<Rightarrow> bool" where
  "truthy_str v = (case v of None \<Rightarrow> False | Some x \<Rightarrow> x \<noteq> [])"

definition truthy_float :: "real option \<Rightarrow> bool" where
  "truthy_float v = (case v of None \<Rightarrow> False | Some x \<Rightarrow> x \<noteq> 0)"

text \<open>
  The loop of \<^verbatim>\<open>search\<close> over \<^verbatim>\<open>reversed(self._buffer)\<close>: \<open>results\<close> is the list built so
  far; the first test is the \<^verbatim>\<open>break\<close>, the next five are the \<^verbatim>\<open>continue\<close>s.
\<close>

fun search_loop ::
  "string option \<Rightarrow> string option \<Rightarrow> string option \<Rightarrow> real option \<Rightarrow> real option \<Rightarrow> int
     \<Rightarrow> LogEntry list \<Rightarrow> LogEntry list \<Rightarrow> LogEntry list" where
  "search_loop lv md cid st en limit [] results = results"
| "search_loop lv md cid st en limit (entry # rest) results =
     (if int (length results) \<ge> limit then results
      else if truthy_str lv \<and> Some (level entry) \<noteq> lv then search_loop lv md cid st en limit rest results
      else if truthy_str md \<and> Some (module entry) \<noteq> md then search_loop lv md cid st en limit rest results
      else if truthy_str cid \<and> correlation_id entry \<noteq> cid then search_loop lv md cid st en limit rest results
      else if truthy_float st \<and> (case st of None \<Rightarrow> False | Some t \<Rightarrow> timestamp entry < t)
        then search_loop lv md cid st en limit rest results
      else if truthy_float en \<and> (case en of None \<Rightarrow> False | Some t \<Rightarrow> timestamp entry > t)
        then search_loop lv md cid st en limit rest results
      else search_loop lv md cid st en limit rest (results @ [entry]))"

definition search ::
  "RingBuffer \<Rightarrow> string option \<Rightarrow> string option \<Rightarrow> string option \<Rightarrow> real option \<Rightarrow> real option \<Rightarrow> int
     \<Rightarrow> LogEntry list" where
  "search s lv md cid st en limit = search_loop lv md cid st en limit (rev (buffer s)) []"

text \<open>
  What one entry has to satisfy to be collected by \<open>search_loop\<close>: it is skipped by none of
  the five \<^verbatim>\<open>continue\<close> tests.
\<close>

definition passes ::
  "string option \<Rightarrow> string option \<Rightarrow> string option \<Rightarrow> real option \<Rightarrow> real option \<Rightarrow> LogEntry \<Rightarrow> bool" where
  "passes lv md cid st en entry \<longleftrightarrow>
     \<not> (truthy_str lv \<and> Some (level entry) \<noteq> lv)
     \<and> \<not> (truthy_str md \<and> Some (module entry) \<noteq> md)
     \<and> \<not> (truthy_str cid \<and> correlation_id entry \<noteq> cid)
     \<and> \<not> (truthy_float st \<and> (case st of None \<Rightarrow> False | Some t \<Rightarrow> timestamp entry < t))
     \<and> \<not> (truthy_float en \<and> (case en of None \<Rightarrow> False | Some t \<Rightarrow> timestamp entry > t))"

section \<open>The rate limiter: app/middleware.py\<close>

text \<open>\<^verbatim>\<open>str\<close> of an integer and \<^verbatim>\<open>int\<close> of a float (truncation towards zero).\<close>

fun str_nat :: "nat \<Rightarrow> string" where
  "str_nat n = (if n < 10 then [char_of (48 + n)] else str_nat (n div 10) @ [char_of (48 + n mod 10)])"

declare str_nat.simps [simp del]

definition py_str_int :: "int \<Rightarrow> string" where
  "py_str_int i = (if i < 0 then CHR ''-'' # str_nat (nat (- i)) else str_nat (nat i))"

definition py_int :: "real \<Rightarrow> int" where
  "py_int x = (if x \<ge> 0 then \<lfloor>x\<rfloor> else \<lceil>x\<rceil>)"

text \<open>
  Of a request the middleware reads \<^verbatim>\<open>request.client.host\<close>, absent when
  \<^verbatim>\<open>request.client\<close> is \<^verbatim>\<open>None\<close>. Of a response it sets the status code, the body and
  headers; \<open>headers\<close> maps a header name to its value. The headers that the web framework
  derives from a body by itself (content type and length) are not modelled.
\<close>

record Request =
  client_host :: "string option"

record Response =
  status_code :: nat
  headers :: "string \<rightharpoonup> string"
  content :: pyval

definition JSONResponse :: "nat \<Rightarrow> pyval \<Rightarrow> Response" where
  "JSONResponse code c = \<lparr> status_code = code, headers = Map.empty, content = c \<rparr>"

text \<open>The handler of \<^verbatim>\<open>GET /\<close> in app/main.py, as a downstream handler to run examples with.\<close>

definition root_handler :: "Request \<Rightarrow> py_error + Response" where
  "root_handler request = Inr (JSONResponse 200
     (PDict [(''message'', PStr ''Jarvis Core API''), (''version'', PStr ''0.1.0''),
             (''status'', PStr ''running'')]))"

text \<open>
  \<^verbatim>\<open>RateLimitMiddleware\<close>: the configured \<^verbatim>\<open>requests_per_minute\<close>, the \<^verbatim>\<open>buckets\<close> (client
  key to tokens and time of the last refill) and what the logger recorded.
\<close>

record RateLimitMiddleware =
  requests_per_minute :: int
  buckets :: "string \<rightharpoonup> real \<times> real"
  limiter_log :: "string list"

definition RateLimitMiddleware_init :: "int \<Rightarrow> RateLimitMiddleware" where
  "RateLimitMiddleware_init rpm = \<lparr> requests_per_minute = rpm, buckets = Map.empty, limiter_log = [] \<rparr>"

text \<open>
  \<^verbatim>\<open>self.buckets[client_ip]\<close> on the \<^verbatim>\<open>defaultdict\<close>: a missing key is first stored with the
  default \<^verbatim>\<open>(requests_per_minute, time.time())\<close>; \<open>t_default\<close> is that reading of the clock.
\<close>

definition bucket_lookup :: "RateLimitMiddleware \<Rightarrow> string \<Rightarrow> real \<Rightarrow> (real \<times> real) \<times> RateLimitMiddleware" where
  "bucket_lookup m key t_default =
     (case buckets m key of
        Some b \<Rightarrow> (b, m)
      | None \<Rightarrow>
          ((real_of_int (requests_per_minute m), t_default),
           m\<lparr> buckets := (buckets m)(key \<mapsto> (real_of_int (requests_per_minute m), t_default)) \<rparr>))"

text \<open>Lines 31 to 33 of \<^verbatim>\<open>dispatch\<close>, commented there as "1 token per second".\<close>

definition refill :: "int \<Rightarrow> real \<Rightarrow> real \<Rightarrow> real \<Rightarrow> real" where
  "refill rpm tokens last_refill now =
     (let time_passed = now - last_refill
      in min (real_of_int rpm) (tokens + time_passed))"

text \<open>
  The refill as the specification words it:
  \<^verbatim>\<open>tokens = min(capacity, tokens + elapsedSeconds * (capacity/60))\<close>.
\<close>

definition spec_refill :: "real \<Rightarrow> real \<Rightarrow> real \<Rightarrow> real" where
  "spec_refill capacity tokens elapsedSeconds =
     min capacity (tokens + elapsedSeconds * (capacity / 60))"

definition client_ip_of :: "Request \<Rightarrow> string" where
  "client_ip_of request = (case client_host request of Some h \<Rightarrow> h | None \<Rightarrow> ''unknown'')"

definition rate_limit_body :: pyval where
  "rate_limit_body = PDict [(''detail'', PStr ''Rate limit exceeded''), (''retry_after'', PInt 60)]"

text \<open>
  \<^verbatim>\<open>RateLimitMiddleware.dispatch\<close>. \<open>call_next\<close> is the rest of the application: it returns a
  response or raises, and what it raises propagates. \<open>now\<close> is the reading of
  \<^verbatim>\<open>time.time()\<close> on line 29.
\<close>

definition dispatch ::
  "RateLimitMiddleware \<Rightarrow> Request \<Rightarrow> (Request \<Rightarrow> 'e + Response) \<Rightarrow> real \<Rightarrow> real
     \<Rightarrow> ('e + Response) \<times> RateLimitMiddleware" where
  "dispatch m request call_next t_default now =
     (let client_ip = client_ip_of request;
          (bucket, m1) = bucket_lookup m client_ip t_default;
          tokens = refill (requests_per_minute m1) (fst bucket) (snd bucket) now
      in if tokens < 1 then
           (Inr (JSONResponse 429 rate_limit_body),
            m1\<lparr> limiter_log := limiter_log m1 @ [''Rate limit exceeded for '' @ client_ip] \<rparr>)
         else
           (let tokens' = tokens - 1;
                m2 = m1\<lparr> buckets := (buckets m1)(client_ip \<mapsto> (tokens', now)) \<rparr>
            in case call_next request of
                 Inl e \<Rightarrow> (Inl e, m2)
               | Inr response \<Rightarrow>
                   (Inr (response\<lparr> headers := (headers response)
                           (''X-RateLimit-Limit'' \<mapsto> py_str_int (requests_per_minute m2),
                            ''X-RateLimit-Remaining'' \<mapsto> py_str_int (py_int tokens'),
                            ''X-RateLimit-Reset'' \<mapsto> py_str_int (py_int (now + 60))) \<rparr>),
                    m2)))"

text \<open>
  A sequence of admission checks: each with its request, the application behind the middleware
  and the two readings of the clock.
\<close>

record 'e call =
  call_request :: Request
  call_next :: "Request \<Rightarrow> 'e + Response"
  call_t_default :: real
  call_now :: real

fun dispatch_seq :: "RateLimitMiddleware \<Rightarrow> 'e call list \<Rightarrow> RateLimitMiddleware" where
  "dispatch_seq m [] = m"
| "dispatch_seq m (c # cs) =
     dispatch_seq (snd (dispatch m (call_request c) (call_next c) (call_t_default c) (call_now c))) cs"

text \<open>The token count that \<open>dispatch\<close> compares with 1: the client's bucket after the refill.\<close>

definition tokens_after_refill :: "RateLimitMiddleware \<Rightarrow> Request \<Rightarrow> real \<Rightarrow> real \<Rightarrow> real" where
  "tokens_after_refill m request t_default now =
     (let bucket = fst (bucket_lookup m (client_ip_of request) t_default)
      in refill (requests_per_minute m) (fst bucket) (snd bucket) now)"

definition buckets_bounded :: "RateLimitMiddleware \<Rightarrow> bool" where
  "buckets_bounded m \<longleftrightarrow>
     (\<forall>key tokens t. buckets m key = Some (tokens, t)
        \<longrightarrow> 0 \<le> tokens \<and> tokens \<le> real_of_int (requests_per_minute m))"

section \<open>The redactor: observability/pii\_masker.py\<close>

subsection \<open>Regular expressions of Python's re module\<close>

text \<open>
  The patterns of \<^verbatim>\<open>PIIMasker\<close> are built from character classes, the word boundary
  \<^verbatim>\<open>\b\<close>, concatenation and greedy counted repetition. A character class is a list of
  inclusive ranges. The classes \<^verbatim>\<open>\w\<close>, \<^verbatim>\<open>\d\<close> and \<^verbatim>\<open>\s\<close> are given for ASCII text,
  on which the model is exact; beyond ASCII Python's classes hold more characters.
\<close>

type_synonym cclass = "(char \<times> char) list"

definition in_class :: "cclass \<Rightarrow> char \<Rightarrow> bool" where
  "in_class cls c = list_ex (\<lambda>(lo, hi). lo \<le> c \<and> c \<le> hi) cls"

definition one :: "char \<Rightarrow> char \<times> char" where
  "one c = (c, c)"

definition word_class :: cclass where
  "word_class = [(CHR ''a'', CHR ''z''), (CHR ''A'', CHR ''Z''), (CHR ''0'', CHR ''9''), one CHR ''_'']"

definition digit_class :: cclass where
  "digit_class = [(CHR ''0'', CHR ''9'')]"

definition space_class :: cclass where
  "space_class = [(CHR 0x09, CHR 0x0D), (CHR 0x1C, CHR 0x1F), one CHR '' '']"

definition alnum :: cclass where
  "alnum = [(CHR ''A'', CHR ''Z''), (CHR ''a'', CHR ''z''), (CHR ''0'', CHR ''9'')]"

datatype regex =
    Eps
  | Chars cclass
  | WordB
  | Then regex regex
  | Rep regex nat "nat option"

text \<open>
  A position of the matcher: the character before it (none at the start of the text) and the
  text from it on. \<open>rmatch r st\<close> lists the positions at which a match of \<open>r\<close> that starts at
  \<open>st\<close> can end, in the order in which the backtracking matcher tries them: a greedy
  repetition takes as many rounds as it can first. \<open>Rep r lo hi\<close> is \<^verbatim>\<open>r{lo,hi}\<close>, with no
  upper bound for \<open>None\<close>; a round that consumes nothing ends the repetition, so the rounds
  left are bounded by the length of the text.
\<close>

type_synonym mstate = "char option \<times> string"

definition is_word :: "char option \<Rightarrow> bool" where
  "is_word c = (case c of None \<Rightarrow> False | Some x \<Rightarrow> in_class word_class x)"

definition next_char :: "string \<Rightarrow> char option" where
  "next_char s = (case s of [] \<Rightarrow> None | c # _ \<Rightarrow> Some c)"

fun rep_greedy :: "(mstate \<Rightarrow> mstate list) \<Rightarrow> nat \<Rightarrow> nat \<Rightarrow> mstate \<Rightarrow> mstate list" where
  "rep_greedy f lo 0 st = (if lo = 0 then [st] else [])"
| "rep_greedy f lo (Suc n) st =
     concat (map (\<lambda>st'. if length (snd st') < length (snd st)
                          then rep_greedy f (lo - 1) n st' else [st']) (f st))
     @ (if lo = 0 then [st] else [])"

primrec rmatch :: "regex \<Rightarrow> mstate \<Rightarrow> mstate list" where
  "rmatch Eps st = [st]"
| "rmatch (Chars cls) st =
     (case snd st of [] \<Rightarrow> [] | c # cs \<Rightarrow> if in_class cls c then [(Some c, cs)] else [])"
| "rmatch WordB st = (if is_word (fst st) \<noteq> is_word (next_char (snd st)) then [st] else [])"
| "rmatch (Then a b) st = concat (map (rmatch b) (rmatch a st))"
| "rmatch (Rep r lo hi) st =
     rep_greedy (rmatch r) lo (case hi of None \<Rightarrow> length (snd st) | Some h \<Rightarrow> h) st"

definition seq :: "regex list \<Rightarrow> regex" where
  "seq rs = foldr Then rs Eps"

definition lit :: "string \<Rightarrow> regex" where
  "lit s = seq (map (\<lambda>c. Chars [one c]) s)"

text \<open>
  \<^verbatim>\<open>pattern.sub(repl, text)\<close> with a function \<open>f\<close> as \<^verbatim>\<open>repl\<close>: the text is scanned from the
  left; at each position the first end the matcher finds is the match, \<open>f\<close> of the matched
  text replaces it and the scan goes on behind it; where nothing matches, the character is
  copied. An exception raised by \<open>f\<close> ends the substitution. \<open>prev\<close> is the character before
  the position of the scan.
\<close>

function re_sub :: "regex \<Rightarrow> (string \<Rightarrow> py_error + string) \<Rightarrow> char option \<Rightarrow> string \<Rightarrow> py_error + string" where
  "re_sub r f prev s =
     (case rmatch r (prev, s) of
        [] \<Rightarrow>
          (case s of
             [] \<Rightarrow> Inr []
           | c # cs \<Rightarrow> (case re_sub r f (Some c) cs of Inl e \<Rightarrow> Inl e | Inr out \<Rightarrow> Inr (c # out)))
      | (p, rest) # _ \<Rightarrow>
          (case f (take (length s - length rest) s) of
             Inl e \<Rightarrow> Inl e
           | Inr repl \<Rightarrow>
               if length s - length rest = 0 then
                 (case s of
                    [] \<Rightarrow> Inr repl
                  | c # cs \<Rightarrow> (case re_sub r f (Some c) cs of Inl e \<Rightarrow> Inl e | Inr out \<Rightarrow> Inr (repl @ c # out)))
               else
                 (case re_sub r f (Some (last (take (length s - length rest) s))) (drop (length s - length rest) s) of
                    Inl e \<Rightarrow> Inl e
                  | Inr out \<Rightarrow> Inr (repl @ out))))"
  by pat_completeness auto
termination
  by (relation "measure (\<lambda>(r, f, prev, s). length s)") auto

declare re_sub.simps [simp del]

text \<open>A loop \<^verbatim>\<open>for pattern in patterns: text = pattern.sub(f, text)\<close>.\<close>

fun sub_each :: "regex list \<Rightarrow> (string \<Rightarrow> py_error + string) \<Rightarrow> string \<Rightarrow> py_error + string" where
  "sub_each [] f text = Inr text"
| "sub_each (pattern # patterns) f text =
     (case re_sub pattern f None text of Inl e \<Rightarrow> Inl e | Inr text' \<Rightarrow> sub_each patterns f text')"

subsection \<open>The patterns of PIIMasker.\_\_init\_\_\<close>

text \<open>
  \<^verbatim>\<open>\b[A-Za-z0-9._%+-]+@[A-Za-z0-9.-]+\.[A-Z|a-z]{2,}\b\<close>; the last class holds the bar.
\<close>

definition email_pattern :: regex where
  "email_pattern = seq
     [WordB,
      Rep (Chars [(CHR ''A'', CHR ''Z''), (CHR ''a'', CHR ''z''), (CHR ''0'', CHR ''9''),
                  one CHR ''.'', one CHR ''_'', one CHR ''%'', one CHR ''+'', one CHR ''-'']) 1 None,
      Chars [one CHR ''@''],
      Rep (Chars [(CHR ''A'', CHR ''Z''), (CHR ''a'', CHR ''z''), (CHR ''0'', CHR ''9''),
                  one CHR ''.'', one CHR ''-'']) 1 None,
      Chars [one CHR ''.''],
      Rep (Chars [(CHR ''A'', CHR ''Z''), one CHR ''|'', (CHR ''a'', CHR ''z'')]) 2 None,
      WordB]"

text \<open>
  \<^verbatim>\<open>\+46\s*\d{1,2}\s*\d{3}\s*\d{2}\s*\d{2}\<close>, \<^verbatim>\<open>0\d{1,2}\s*\d{3}\s*\d{2}\s*\d{2}\<close> and
  \<^verbatim>\<open>\+1\s*\d{3}\s*\d{3}\s*\d{4}\<close>.
\<close>

definition phone_patterns :: "regex list" where
  "phone_patterns =
     [seq [lit ''+46'', Rep (Chars space_class) 0 None, Rep (Chars digit_class) 1 (Some 2),
           Rep (Chars space_class) 0 None, Rep (Chars digit_class) 3 (Some 3),
           Rep (Chars space_class) 0 None, Rep (Chars digit_class) 2 (Some 2),
           Rep (Chars space_class) 0 None, Rep (Chars digit_class) 2 (Some 2)],
      seq [lit ''0'', Rep (Chars digit_class) 1 (Some 2),
           Rep (Chars space_class) 0 None, Rep (Chars digit_class) 3 (Some 3),
           Rep (Chars space_class) 0 None, Rep (Chars digit_class) 2 (Some 2),
           Rep (Chars space_class) 0 None, Rep (Chars digit_class) 2 (Some 2)],
      seq [lit ''+1'', Rep (Chars space_class) 0 None, Rep (Chars digit_class) 3 (Some 3),
           Rep (Chars space_class) 0 None, Rep (Chars digit_class) 3 (Some 3),
           Rep (Chars space_class) 0 None, Rep (Chars digit_class) 4 (Some 4)]]"

text \<open>\<^verbatim>\<open>eyJ[A-Za-z0-9-_]+\.[A-Za-z0-9-_]+\.[A-Za-z0-9-_]+\<close>.\<close>

definition jwt_segment :: regex where
  "jwt_segment = Rep (Chars (alnum @ [one CHR ''-'', one CHR ''_''])) 1 None"

definition jwt_pattern :: regex where
  "jwt_pattern = seq [lit ''eyJ'', jwt_segment, lit ''.'', jwt_segment, lit ''.'', jwt_segment]"

text \<open>\<^verbatim>\<open>[A-Za-z0-9]{32,}\<close>.\<close>

definition oauth_pattern :: regex where
  "oauth_pattern = Rep (Chars alnum) 32 None"

text \<open>\<^verbatim>\<open>\b[A-Z]{2}[0-9]{2}[A-Z0-9]{4}[0-9]{7}([A-Z0-9]?){0,16}\b\<close>.\<close>

definition iban_pattern :: regex where
  "iban_pattern = seq
     [WordB,
      Rep (Chars [(CHR ''A'', CHR ''Z'')]) 2 (Some 2),
      Rep (Chars [(CHR ''0'', CHR ''9'')]) 2 (Some 2),
      Rep (Chars [(CHR ''A'', CHR ''Z''), (CHR ''0'', CHR ''9'')]) 4 (Some 4),
      Rep (Chars [(CHR ''0'', CHR ''9'')]) 7 (Some 7),
      Rep (Rep (Chars [(CHR ''A'', CHR ''Z''), (CHR ''0'', CHR ''9'')]) 0 (Some 1)) 0 (Some 16),
      WordB]"

text \<open>\<^verbatim>\<open>\b\d{4}[\s-]?\d{4}[\s-]?\d{4}[\s-]?\d{4}\b\<close>.\<close>

definition credit_card_pattern :: regex where
  "credit_card_pattern = seq
     [WordB,
      Rep (Chars digit_class) 4 (Some 4), Rep (Chars (space_class @ [one CHR ''-''])) 0 (Some 1),
      Rep (Chars digit_class) 4 (Some 4), Rep (Chars (space_class @ [one CHR ''-''])) 0 (Some 1),
      Rep (Chars digit_class) 4 (Some 4), Rep (Chars (space_class @ [one CHR ''-''])) 0 (Some 1),
      Rep (Chars digit_class) 4 (Some 4),
      WordB]"

text \<open>\<^verbatim>\<open>sk-[A-Za-z0-9]{48}\<close> and \<^verbatim>\<open>[A-Za-z0-9]{32,}\<close>.\<close>

definition api_key_patterns :: "regex list" where
  "api_key_patterns =
     [seq [lit ''sk-'', Rep (Chars alnum) 48 (Some 48)],
      Rep (Chars alnum) 32 None]"

subsection \<open>The masking functions\<close>

text \<open>
  \<^verbatim>\<open>s.split(c)\<close>, \<^verbatim>\<open>'*' * n\<close> (empty for a negative \<open>n\<close>, as the truncated subtraction of
  natural numbers gives it) and \<^verbatim>\<open>s[-n:]\<close> for a positive \<open>n\<close>.
\<close>

fun split_on :: "char \<Rightarrow> string \<Rightarrow> string list" where
  "split_on c [] = [[]]"
| "split_on c (x # xs) =
     (if x = c then [] # split_on c xs
      else (case split_on c xs of [] \<Rightarrow> [[x]] | w # ws \<Rightarrow> (x # w) # ws))"

definition stars :: "nat \<Rightarrow> string" where
  "stars n = replicate n CHR ''*''"

definition py_last :: "nat \<Rightarrow> string \<Rightarrow> string" where
  "py_last n s = drop (length s - n) s"

text \<open>
  The inner function of \<^verbatim>\<open>mask_email\<close>. The unpacking
  \<^verbatim>\<open>username, domain = email.split('@')\<close> raises ValueError unless there are exactly two parts.
\<close>

definition mask_email_repl :: "string \<Rightarrow> py_error + string" where
  "mask_email_repl email =
     (case split_on CHR ''@'' email of
        [username, domain] \<Rightarrow>
          Inr ((take 2 username @ stars (length username - 2)) @ ''@''
               @ (take 2 domain @ stars (length domain - 2)))
      | _ \<Rightarrow> Inl ValueError)"

definition mask_email :: "string \<Rightarrow> py_error + string" where
  "mask_email text = re_sub email_pattern mask_email_repl None text"

definition mask_phone_repl :: "string \<Rightarrow> py_error + string" where
  "mask_phone_repl phone =
     (if length phone \<ge> 8
      then Inr (take 3 phone @ stars (length phone - 5) @ py_last 2 phone)
      else Inr (stars (length phone)))"

definition mask_phone :: "string \<Rightarrow> py_error + string" where
  "mask_phone text = sub_each phone_patterns mask_phone_repl text"

definition mask_jwt_repl :: "string \<Rightarrow> py_error + string" where
  "mask_jwt_repl jwt =
     (case split_on CHR ''.'' jwt of
        [p0, p1, p2] \<Rightarrow> Inr ((take 8 p0 @ ''...'') @ ''.'' @ (take 8 p1 @ ''...'') @ ''.'' @ stars 20)
      | _ \<Rightarrow> Inr (stars (length jwt)))"

definition mask_jwt :: "string \<Rightarrow> py_error + string" where
  "mask_jwt text = re_sub jwt_pattern mask_jwt_repl None text"

definition mask_oauth_repl :: "string \<Rightarrow> py_error + string" where
  "mask_oauth_repl code =
     (if length code \<ge> 8
      then Inr (take 4 code @ stars (length code - 8) @ py_last 4 code)
      else Inr (stars (length code)))"

definition mask_oauth :: "string \<Rightarrow> py_error + string" where
  "mask_oauth text = re_sub oauth_pattern mask_oauth_repl None text"

definition mask_iban_repl :: "string \<Rightarrow> py_error + string" where
  "mask_iban_repl iban =
     (if length iban \<ge> 8
      then Inr (take 4 iban @ stars (length iban - 8) @ py_last 4 iban)
      else Inr (stars (length iban)))"

definition mask_iban :: "string \<Rightarrow> py_error + string" where
  "mask_iban text = re_sub iban_pattern mask_iban_repl None text"

definition mask_credit_card_repl :: "string \<Rightarrow> py_error + string" where
  "mask_credit_card_repl cardno =
     (if length cardno \<ge> 8
      then Inr (take 4 cardno @ stars (length cardno - 8) @ py_last 4 cardno)
      else Inr (stars (length cardno)))"

definition mask_credit_card :: "string \<Rightarrow> py_error + string" where
  "mask_credit_card text = re_sub credit_card_pattern mask_credit_card_repl None text"

definition mask_api_key_repl :: "string \<Rightarrow> py_error + string" where
  "mask_api_key_repl key =
     (if length key \<ge> 8
      then Inr (take 4 key @ stars (length key - 8) @ py_last 4 key)
      else Inr (stars (length key)))"

definition mask_api_keys :: "string \<Rightarrow> py_error + string" where
  "mask_api_keys text = sub_each api_key_patterns mask_api_key_repl text"

text \<open>One statement after another: the first exception ends the function.\<close>

definition and_then :: "py_error + 'a \<Rightarrow> ('a \<Rightarrow> py_error + 'b) \<Rightarrow> py_error + 'b" where
  "and_then r f = (case r of Inl e \<Rightarrow> Inl e | Inr x \<Rightarrow> f x)"

definition mask_all :: "string \<Rightarrow> py_error + string" where
  "mask_all text =
     and_then (mask_email text) (\<lambda>text.
     and_then (mask_phone text) (\<lambda>text.
     and_then (mask_jwt text) (\<lambda>text.
     and_then (mask_oauth text) (\<lambda>text.
     and_then (mask_iban text) (\<lambda>text.
     and_then (mask_credit_card text) (\<lambda>text.
     mask_api_keys text))))))"

text \<open>
  \<^verbatim>\<open>mask_dict\<close>: the loop over \<^verbatim>\<open>data.items()\<close> is \<open>mask_dict\<close>, the \<^verbatim>\<open>if\<close> chain on one
  value is \<open>mask_value\<close>, and the list comprehension is \<open>mask_items\<close> with \<open>mask_item\<close> for one
  element. An element of a list that is itself a list is neither a dict nor a string and is
  kept as it is. The keys of a dict are distinct, so storing the masked values under the keys
  in iteration order gives the items in the same order.
\<close>

fun mask_dict :: "(string \<times> pyval) list \<Rightarrow> py_error + (string \<times> pyval) list"
  and mask_value :: "pyval \<Rightarrow> py_error + pyval"
  and mask_items :: "pyval list \<Rightarrow> py_error + pyval list"
  and mask_item :: "pyval \<Rightarrow> py_error + pyval" where
  "mask_dict [] = Inr []"
| "mask_dict ((key, v) # rest) =
     and_then (mask_value v) (\<lambda>v'.
     and_then (mask_dict rest) (\<lambda>rest'. Inr ((key, v') # rest')))"
| "mask_value (PStr s) = and_then (mask_all s) (\<lambda>s'. Inr (PStr s'))"
| "mask_value (PDict d) = and_then (mask_dict d) (\<lambda>d'. Inr (PDict d'))"
| "mask_value (PList xs) = and_then (mask_items xs) (\<lambda>xs'. Inr (PList xs'))"
| "mask_value v = Inr v"
| "mask_items [] = Inr []"
| "mask_items (x # xs) =
     and_then (mask_item x) (\<lambda>x'.
     and_then (mask_items xs) (\<lambda>xs'. Inr (x' # xs')))"
| "mask_item (PDict d) = and_then (mask_dict d) (\<lambda>d'. Inr (PDict d'))"
| "mask_item (PStr s) = and_then (mask_all s) (\<lambda>s'. Inr (PStr s'))"
| "mask_item v = Inr v"

text \<open>
  Two payloads that differ at most in the text of their strings: the same keys in the same
  order, the same shape, and every value that is not a string, a dict or a list the same.
\<close>

fun frame_dict :: "(string \<times> pyval) list \<Rightarrow> (string \<times> pyval) list \<Rightarrow> bool"
  and frame_value :: "pyval \<Rightarrow> pyval \<Rightarrow> bool"
  and frame_list :: "pyval list \<Rightarrow> pyval list \<Rightarrow> bool" where
  "frame_dict [] [] = True"
| "frame_dict ((k, v) # r) ((k', v') # r') = (k' = k \<and> frame_value v v' \<and> frame_dict r r')"
| "frame_dict _ _ = False"
| "frame_value (PStr s) (PStr s') = True"
| "frame_value (PDict d) (PDict d') = frame_dict d d'"
| "frame_value (PList xs) (PList ys) = frame_list xs ys"
| "frame_value v v' = (v' = v)"
| "frame_list [] [] = True"
| "frame_list (x # xs) (y # ys) = (frame_value x y \<and> frame_list xs ys)"
| "frame_list _ _ = False"

section \<open>Properties of the ring buffer\<close>


lemma deque_append_length: "length d \<le> m \<Longrightarrow> length (deque_append m d x) \<le> m"
  by (simp add: deque_append_def Let_def)

lemma warn_high_usage_frame:
  "buffer (warn_high_usage s u now) = buffer s \<and> max_size (warn_high_usage s u now) = max_size s
   \<and> policy (warn_high_usage s u now) = policy s"
  by (simp add: warn_high_usage_def)

lemma add_append_bounded:
  assumes "length (buffer s) \<le> max_size s" and "add_append s entry clk = (r, s')"
  shows "length (buffer s') \<le> max_size s' \<and> max_size s' = max_size s \<and> policy s' = policy s"
proof -
  define s1 where "s1 = s\<lparr> buffer := deque_append (max_size s) (buffer s) entry,
                               add_count := add_count s + 1 \<rparr>"
  have s1: "length (buffer s1) \<le> max_size s1" "max_size s1 = max_size s" "policy s1 = policy s"
    using assms(1) by (simp_all add: s1_def deque_append_length)
  from assms(2) have "s' = s1 \<or> (\<exists>u. s' = warn_high_usage s1 u (t_warn clk))"
    unfolding add_append_def s1_def[symmetric] Let_def by (auto split: if_splits)
  with s1 show ?thesis by (auto simp: warn_high_usage_frame)
qed

lemma wait_loop_bounded:
  "length (buffer s) \<le> max_size s \<Longrightarrow> wait_loop s entry timeout t0 polls = Some (r, s')
   \<Longrightarrow> length (buffer s') \<le> max_size s' \<and> max_size s' = max_size s \<and> policy s' = policy s"
proof (induction polls)
  case Nil
  then show ?case by (auto simp: deque_append_length split: if_splits)
next
  case (Cons t polls)
  then show ?case by (auto simp: deque_append_length split: if_splits)
qed

lemma add_bounded:
  assumes "length (buffer s) \<le> max_size s" and "add s entry clk = Some (r, s')"
  shows "length (buffer s') \<le> max_size s' \<and> max_size s' = max_size s \<and> policy s' = policy s"
proof (cases "max_size s \<le> length (buffer s)")
  case False
  with assms show ?thesis using add_append_bounded[of s entry clk r s'] by (simp add: add_def)
next
  case True
  show ?thesis
  proof (cases "policy s")
    case DROP_OLDEST
    let ?s1 = "s\<lparr> dropped_count := dropped_count s + 1, drop_count := drop_count s + 1 \<rparr>"
    from assms True DROP_OLDEST have "add_append ?s1 entry clk = (r, s')" by (simp add: add_def)
    moreover have "length (buffer ?s1) \<le> max_size ?s1" using assms(1) by simp
    ultimately show ?thesis using add_append_bounded[of ?s1 entry clk r s'] by simp
  next
    case BLOCK
    with assms True obtain b where "wait_loop s entry 1 (t_wait_start clk) (t_wait_polls clk) = Some (b, s')"
      by (auto simp: add_def wait_for_space_def split: option.splits)
    then show ?thesis using wait_loop_bounded assms(1) by blast
  next
    case DROP_NEWEST
    with assms True show ?thesis by (auto simp: add_def)
  qed
qed

lemma add_seq_inv:
  "length (buffer s) \<le> max_size s \<Longrightarrow> add_seq s calls = Some (rs, s')
   \<Longrightarrow> length (buffer s') \<le> max_size s' \<and> max_size s' = max_size s \<and> policy s' = policy s"
proof (induction calls arbitrary: s rs)
  case Nil
  then show ?case by simp
next
  case (Cons c calls)
  obtain entry clk where c: "c = (entry, clk)" by (cases c)
  from Cons.prems(2) c obtain r s1 rs1 where
    a: "add s entry clk = Some (r, s1)" and b: "add_seq s1 calls = Some (rs1, s')"
    by (auto split: option.splits)
  from add_bounded[OF Cons.prems(1) a] Cons.IH[of s1 rs1] b show ?case by simp
qed

text \<open>
  C5: from a freshly constructed buffer, after any sequence of \<^verbatim>\<open>add\<close> calls that have
  returned or raised, under any of the three policies, the number of stored entries is at most
  \<open>max_size\<close>.
\<close>

theorem add_seq_bounded:
  assumes "RingBuffer_init m p threshold now = Inr s0"
    and "add_seq s0 calls = Some (rs, s)"
  shows "length (buffer s) \<le> max_size s \<and> max_size s = nat m \<and> policy s = p"
proof -
  from assms(1) have "length (buffer s0) \<le> max_size s0" "max_size s0 = nat m" "policy s0 = p"
    by (auto simp: RingBuffer_init_def split: if_splits)
  with add_seq_inv[OF _ assms(2)] show ?thesis by simp
qed

lemma wait_loop_timeout:
  "max_size s \<le> length (buffer s) \<Longrightarrow> \<exists>t \<in> set polls. t - t0 > timeout
   \<Longrightarrow> wait_loop s entry timeout t0 polls =
       Some (False, s\<lparr> drop_count := drop_count s + 1,
                        warnings := warnings s @ [BufferFullTimeout timeout] \<rparr>)"
  by (induction polls) auto


theorem add_seq_bounded_witness:
  "(\<exists>s0 rs s. RingBuffer_init 1 DROP_OLDEST 0.8 0 = Inr s0
      \<and> add_seq s0 [(LogEntry_init 1 ''INFO'' ''a'' ''main'' ''f'' 1, \<lparr>t_wait_start = 0, t_wait_polls = [0, 2], t_warn = 100\<rparr>),
                     (LogEntry_init 2 ''INFO'' ''b'' ''main'' ''f'' 2, \<lparr>t_wait_start = 0, t_wait_polls = [0, 2], t_warn = 100\<rparr>)]
          = Some (rs, s)
      \<and> length (buffer s) \<le> max_size s \<and> max_size s = nat 1 \<and> policy s = DROP_OLDEST)
   \<and> (\<exists>s0 rs s. RingBuffer_init 1 BLOCK 0.8 0 = Inr s0
      \<and> add_seq s0 [(LogEntry_init 1 ''INFO'' ''a'' ''main'' ''f'' 1, \<lparr>t_wait_start = 0, t_wait_polls = [0, 2], t_warn = 100\<rparr>),
                     (LogEntry_init 2 ''INFO'' ''b'' ''main'' ''f'' 2, \<lparr>t_wait_start = 0, t_wait_polls = [0, 2], t_warn = 100\<rparr>)]
          = Some (rs, s)
      \<and> length (buffer s) \<le> max_size s \<and> max_size s = nat 1 \<and> policy s = BLOCK)
   \<and> (\<exists>s0 rs s. RingBuffer_init 1 DROP_NEWEST 0.8 0 = Inr s0
      \<and> add_seq s0 [(LogEntry_init 1 ''INFO'' ''a'' ''main'' ''f'' 1, \<lparr>t_wait_start = 0, t_wait_polls = [0, 2], t_warn = 100\<rparr>),
                     (LogEntry_init 2 ''INFO'' ''b'' ''main'' ''f'' 2, \<lparr>t_wait_start = 0, t_wait_polls = [0, 2], t_warn = 100\<rparr>)]
          = Some (rs, s)
      \<and> length (buffer s) \<le> max_size s \<and> max_size s = nat 1 \<and> policy s = DROP_NEWEST)"
proof -
  define calls where "calls = [(LogEntry_init 1 ''INFO'' ''a'' ''main'' ''f'' 1, \<lparr>t_wait_start = 0, t_wait_polls = [0, 2], t_warn = 100\<rparr>),
                     (LogEntry_init 2 ''INFO'' ''b'' ''main'' ''f'' 2, \<lparr>t_wait_start = 0, t_wait_polls = [0, 2], t_warn = (100::real)\<rparr>)]"
  have run: "\<exists>s0 rs s. RingBuffer_init 1 p 0.8 0 = Inr s0 \<and> add_seq s0 calls = Some (rs, s)
      \<and> length (buffer s) \<le> max_size s \<and> max_size s = nat 1 \<and> policy s = p" for p
  proof -
    define s0 where "s0 = \<lparr> max_size = nat 1, policy = p,
                 drop_warning_threshold = 0.8, buffer = [],
                 dropped_count = 0, last_warning = 0, add_count = 0, drop_count = 0,
                 start_time = 0, warnings = [] \<rparr>"
    have a: "RingBuffer_init 1 p 0.8 0 = Inr s0"
      by (simp add: RingBuffer_init_def s0_def)
    have "add_seq s0 calls \<noteq> None"
      by (cases p) (simp_all add: s0_def calls_def add_def add_append_def deque_append_def
            warn_high_usage_def wait_for_space_def Let_def)
    then obtain rs s where b: "add_seq s0 calls = Some (rs, s)" by auto
    from add_seq_bounded[OF a b] a b show ?thesis by blast
  qed
  from run[of DROP_OLDEST] run[of BLOCK] run[of DROP_NEWEST] show ?thesis
    unfolding calls_def by blast
qed

lemma add_append_result:
  assumes "0 < max_size s"
  shows "\<exists>s'. add_append s entry clk = (Inr True, s')
     \<and> buffer s' = deque_append (max_size s) (buffer s) entry
     \<and> max_size s' = max_size s \<and> policy s' = policy s
     \<and> drop_count s' = drop_count s \<and> dropped_count s' = dropped_count s"
  using assms by (simp add: add_append_def Let_def warn_high_usage_def)

text \<open>
  C6: on a new buffer of capacity 3 with policy DROP\_OLDEST, adding \<open>A\<close>, \<open>B\<close>, \<open>C\<close>, \<open>D\<close>
  returns \<^verbatim>\<open>True\<close> four times; then \<^verbatim>\<open>get_recent(3)\<close> is \<open>[B, C, D]\<close> and both drop counters
  are 1. This holds for all entries, clock readings and warning thresholds.
\<close>

theorem drop_oldest_recency:
  "\<exists>s0 s. RingBuffer_init 3 DROP_OLDEST threshold now = Inr s0
     \<and> add_seq s0 [(A, c1), (B, c2), (C, c3), (D, c4)]
         = Some ([Inr True, Inr True, Inr True, Inr True], s)
     \<and> get_recent s 3 = [B, C, D]
     \<and> drop_count s = 1 \<and> dropped_count s = 1"
proof -
  define s0 where "s0 = \<lparr> max_size = nat 3, policy = DROP_OLDEST,
                 drop_warning_threshold = threshold, buffer = [],
                 dropped_count = 0, last_warning = 0, add_count = 0, drop_count = 0,
                 start_time = now, warnings = [] \<rparr>"
  have i: "RingBuffer_init 3 DROP_OLDEST threshold now = Inr s0"
    by (simp add: RingBuffer_init_def s0_def)
  have p0: "max_size s0 = 3" "policy s0 = DROP_OLDEST" "buffer s0 = []"
    "drop_count s0 = 0" "dropped_count s0 = 0"
    by (simp_all add: s0_def)
  obtain s1 where a1: "add s0 A c1 = Some (Inr True, s1)"
    and p1: "max_size s1 = 3" "policy s1 = DROP_OLDEST" "buffer s1 = [A]"
      "drop_count s1 = 0" "dropped_count s1 = 0"
    using add_append_result[of s0 A c1] p0 by (auto simp: add_def deque_append_def)
  obtain s2 where a2: "add s1 B c2 = Some (Inr True, s2)"
    and p2: "max_size s2 = 3" "policy s2 = DROP_OLDEST" "buffer s2 = [A, B]"
      "drop_count s2 = 0" "dropped_count s2 = 0"
    using add_append_result[of s1 B c2] p1 by (auto simp: add_def deque_append_def)
  obtain s3 where a3: "add s2 C c3 = Some (Inr True, s3)"
    and p3: "max_size s3 = 3" "policy s3 = DROP_OLDEST" "buffer s3 = [A, B, C]"
      "drop_count s3 = 0" "dropped_count s3 = 0"
    using add_append_result[of s2 C c3] p2 by (auto simp: add_def deque_append_def)
  let ?s3 = "s3\<lparr> dropped_count := dropped_count s3 + 1, drop_count := drop_count s3 + 1 \<rparr>"
  obtain s4 where a4: "add s3 D c4 = Some (Inr True, s4)"
    and p4: "buffer s4 = [B, C, D]" "drop_count s4 = 1" "dropped_count s4 = 1"
    using add_append_result[of ?s3 D c4] p3 by (auto simp: add_def deque_append_def)
  have "add_seq s0 [(A, c1), (B, c2), (C, c3), (D, c4)]
         = Some ([Inr True, Inr True, Inr True, Inr True], s4)"
    by (simp add: a1 a2 a3 a4)
  moreover have "get_recent s4 3 = [B, C, D]"
    by (simp add: get_recent_def p4)
  ultimately show ?thesis using i p4 by blast
qed

text \<open>
  C9: under BLOCK, \<^verbatim>\<open>add\<close> on a full buffer, when one of the clock readings of the wait loop
  is more than one second after its start, returns \<^verbatim>\<open>False\<close> (it does not raise), counts one
  drop, records the warning and leaves the stored entries and every other field as they were.
\<close>

theorem add_block_timeout:
  assumes "policy s = BLOCK"
    and "max_size s \<le> length (buffer s)"
    and "\<exists>t \<in> set (t_wait_polls clk). t - t_wait_start clk > 1"
  shows "add s entry clk =
           Some (Inr False, s\<lparr> drop_count := drop_count s + 1,
                                warnings := warnings s @ [BufferFullTimeout 1] \<rparr>)"
  using assms wait_loop_timeout[where s=s and polls="t_wait_polls clk" and ?t0.0="t_wait_start clk"
      and timeout=1 and entry=entry]
  by (simp add: add_def wait_for_space_def)

theorem add_block_timeout_witness:
  "add \<lparr> max_size = 1, policy = BLOCK, drop_warning_threshold = 0.8,
         buffer = [LogEntry_init 1 ''INFO'' ''a'' ''main'' ''f'' 1],
         dropped_count = 0, last_warning = 0, add_count = 1, drop_count = 0,
         start_time = 0, warnings = [] \<rparr>
       (LogEntry_init 2 ''INFO'' ''b'' ''main'' ''f'' 2)
       \<lparr> t_wait_start = 10, t_wait_polls = [10, 10.5, 11.5], t_warn = 12 \<rparr>
   = Some (Inr False,
       \<lparr> max_size = 1, policy = BLOCK, drop_warning_threshold = 0.8,
         buffer = [LogEntry_init 1 ''INFO'' ''a'' ''main'' ''f'' 1],
         dropped_count = 0, last_warning = 0, add_count = 1, drop_count = 1,
         start_time = 0, warnings = [BufferFullTimeout 1] \<rparr>)"
proof -
  let ?s = "\<lparr> max_size = 1, policy = BLOCK, drop_warning_threshold = 0.8,
         buffer = [LogEntry_init 1 ''INFO'' ''a'' ''main'' ''f'' 1],
         dropped_count = 0, last_warning = 0, add_count = 1, drop_count = 0,
         start_time = 0, warnings = [] \<rparr>"
  let ?clk = "\<lparr> t_wait_start = 10, t_wait_polls = [10, 10.5, 11.5], t_warn = (12::real) \<rparr>"
  have h1: "policy ?s = BLOCK" by simp
  have h2: "max_size ?s \<le> length (buffer ?s)" by simp
  have h3: "\<exists>t \<in> set (t_wait_polls ?clk). t - t_wait_start ?clk > 1"
    by (rule bexI[of _ "11.5"]) simp_all
  from add_block_timeout[OF h1 h2 h3] show ?thesis by simp
qed

text \<open>
  C3, at the limit 0: \<^verbatim>\<open>get_recent(0)\<close> returns the whole buffer, since \<^verbatim>\<open>[-0:]\<close> is
  \<^verbatim>\<open>[0:]\<close>; on a buffer holding \<open>A\<close> and \<open>B\<close> it returns both and not the empty list.
\<close>

theorem get_recent_zero:
  "get_recent s 0 = buffer s
   \<and> get_recent (s\<lparr> buffer := [A, B] \<rparr>) 0 = [A, B]"
  by (simp add: get_recent_def py_slice_from_def)

lemma get_recent_positive:
  "0 < limit \<Longrightarrow> get_recent s limit = drop (length (buffer s) - nat limit) (buffer s)"
  by (auto simp: get_recent_def py_slice_from_def Let_def max_def nat_diff_distrib')

lemma search_loop_Cons:
  "search_loop lv md cid st en limit (x # xs) results =
     (if int (length results) \<ge> limit then results
      else if passes lv md cid st en x then search_loop lv md cid st en limit xs (results @ [x])
      else search_loop lv md cid st en limit xs results)"
proof -
  define c1 where "c1 \<longleftrightarrow> truthy_str lv \<and> Some (level x) \<noteq> lv"
  define c2 where "c2 \<longleftrightarrow> truthy_str md \<and> Some (module x) \<noteq> md"
  define c3 where "c3 \<longleftrightarrow> truthy_str cid \<and> correlation_id x \<noteq> cid"
  define c4 where "c4 \<longleftrightarrow> truthy_float st \<and> (case st of None \<Rightarrow> False | Some t \<Rightarrow> timestamp x < t)"
  define c5 where "c5 \<longleftrightarrow> truthy_float en \<and> (case en of None \<Rightarrow> False | Some t \<Rightarrow> timestamp x > t)"
  have p: "passes lv md cid st en x \<longleftrightarrow> \<not> c1 \<and> \<not> c2 \<and> \<not> c3 \<and> \<not> c4 \<and> \<not> c5"
    unfolding passes_def c1_def c2_def c3_def c4_def c5_def ..
  have "search_loop lv md cid st en limit (x # xs) results =
     (if int (length results) \<ge> limit then results
      else if c1 then search_loop lv md cid st en limit xs results
      else if c2 then search_loop lv md cid st en limit xs results
      else if c3 then search_loop lv md cid st en limit xs results
      else if c4 then search_loop lv md cid st en limit xs results
      else if c5 then search_loop lv md cid st en limit xs results
      else search_loop lv md cid st en limit xs (results @ [x]))"
    unfolding c1_def c2_def c3_def c4_def c5_def by (rule search_loop.simps(2))
  then show ?thesis unfolding p by simp
qed

lemma search_loop_eq:
  "search_loop lv md cid st en limit xs results =
     results @ take (nat (limit - int (length results))) (filter (passes lv md cid st en) xs)"
proof (induction xs arbitrary: results)
  case Nil
  then show ?case by simp
next
  case (Cons x xs)
  show ?case
  proof (cases "int (length results) \<ge> limit")
    case True
    then show ?thesis by (simp add: search_loop_Cons del: search_loop.simps)
  next
    case False
    then have n: "nat (limit - int (length results)) = Suc (nat (limit - int (length results) - 1))"
      by simp
    show ?thesis
    proof (cases "passes lv md cid st en x")
      case True
      then have "search_loop lv md cid st en limit (x # xs) results
                 = search_loop lv md cid st en limit xs (results @ [x])"
        using False by (simp add: search_loop_Cons del: search_loop.simps)
      also have "\<dots> = (results @ [x]) @ take (nat (limit - int (length (results @ [x]))))
                         (filter (passes lv md cid st en) xs)"
        by (rule Cons.IH)
      also have "\<dots> = results @ take (nat (limit - int (length results)))
                         (filter (passes lv md cid st en) (x # xs))"
        using True n by (simp add: algebra_simps)
      finally show ?thesis .
    next
      case np: False
      then have "search_loop lv md cid st en limit (x # xs) results
                 = search_loop lv md cid st en limit xs results"
        using False by (simp add: search_loop_Cons del: search_loop.simps)
      then show ?thesis using np Cons.IH[of results] by simp
    qed
  qed
qed

lemma search_eq:
  "search s lv md cid st en limit =
     take (nat limit) (filter (passes lv md cid st en) (rev (buffer s)))"
  by (simp add: search_def search_loop_eq)

text \<open>
  C4, at the end time 0: \<^verbatim>\<open>search(end_time=0.0)\<close> on a buffer whose only entry has the
  timestamp 5 returns that entry, although 5 is after the end time: the filter is skipped
  because \<^verbatim>\<open>0.0\<close> is falsy.
\<close>

theorem search_zero_end_time_ignored:
  "search (s\<lparr> buffer := [LogEntry_init 5 ''INFO'' ''started'' ''main'' ''create_app'' 25] \<rparr>)
          None None None None (Some 0) 100
   = [LogEntry_init 5 ''INFO'' ''started'' ''main'' ''create_app'' 25]"
  by (simp add: search_def truthy_float_def truthy_str_def)


section \<open>Properties of the rate limiter\<close>


lemma bucket_lookup_rpm: "requests_per_minute (snd (bucket_lookup m key t)) = requests_per_minute m"
  by (simp add: bucket_lookup_def split: option.splits)

lemma bucket_lookup_bounded:
  assumes "0 \<le> requests_per_minute m" "buckets_bounded m" "bucket_lookup m key t = ((tokens, lr), m1)"
  shows "buckets_bounded m1 \<and> requests_per_minute m1 = requests_per_minute m
         \<and> 0 \<le> tokens \<and> tokens \<le> real_of_int (requests_per_minute m)"
proof (cases "buckets m key")
  case None
  with assms(3) have m1: "m1 = m\<lparr> buckets := (buckets m)(key \<mapsto> (real_of_int (requests_per_minute m), t)) \<rparr>"
    and tk: "tokens = real_of_int (requests_per_minute m)"
    by (auto simp: bucket_lookup_def)
  have "buckets_bounded m1"
    unfolding buckets_bounded_def
  proof (intro allI impI)
    fix k tok t' assume a: "buckets m1 k = Some (tok, t')"
    show "0 \<le> tok \<and> tok \<le> real_of_int (requests_per_minute m1)"
    proof (cases "k = key")
      case True
      with a m1 assms(1) show ?thesis by simp
    next
      case False
      with a m1 have "buckets m k = Some (tok, t')" by simp
      with assms(2) have "0 \<le> tok \<and> tok \<le> real_of_int (requests_per_minute m)"
        unfolding buckets_bounded_def by blast
      with m1 show ?thesis by simp
    qed
  qed
  with m1 tk assms(1) show ?thesis by simp
next
  case (Some b)
  with assms(3) have "m1 = m" "buckets m key = Some (tokens, lr)"
    by (auto simp: bucket_lookup_def)
  with assms(2) show ?thesis unfolding buckets_bounded_def by blast
qed

lemma dispatch_bounded:
  assumes "0 \<le> requests_per_minute m" "buckets_bounded m"
  shows "buckets_bounded (snd (dispatch m request cn t now))
         \<and> requests_per_minute (snd (dispatch m request cn t now)) = requests_per_minute m"
proof -
  obtain tokens lr m1 where l: "bucket_lookup m (client_ip_of request) t = ((tokens, lr), m1)"
    by (metis prod.exhaust)
  from bucket_lookup_bounded[OF assms l] have
    b: "buckets_bounded m1" "requests_per_minute m1 = requests_per_minute m" by simp_all
  define tk where "tk = refill (requests_per_minute m1) tokens lr now"
  have le: "tk \<le> real_of_int (requests_per_minute m)" by (simp add: tk_def refill_def b)
  show ?thesis
  proof (cases "tk < 1")
    case True
    then show ?thesis using l b by (simp add: dispatch_def Let_def tk_def buckets_bounded_def)
  next
    case False
    let ?m2 = "m1\<lparr> buckets := (buckets m1)(client_ip_of request \<mapsto> (tk - 1, now)) \<rparr>"
    have "buckets_bounded ?m2"
      unfolding buckets_bounded_def
    proof (intro allI impI)
      fix k tok t' assume a: "buckets ?m2 k = Some (tok, t')"
      show "0 \<le> tok \<and> tok \<le> real_of_int (requests_per_minute ?m2)"
      proof (cases "k = client_ip_of request")
        case True
        with a False le b(2) show ?thesis by simp
      next
        case nk: False
        with a have "buckets m1 k = Some (tok, t')" by simp
        with b(1) have "0 \<le> tok \<and> tok \<le> real_of_int (requests_per_minute m1)"
          unfolding buckets_bounded_def by blast
        then show ?thesis by simp
      qed
    qed
    moreover have "snd (dispatch m request cn t now) = ?m2"
      using l False by (simp add: dispatch_def Let_def tk_def split: sum.splits)
    ultimately show ?thesis using b by simp
  qed
qed

lemma dispatch_seq_bounded:
  "0 \<le> requests_per_minute m \<Longrightarrow> buckets_bounded m
   \<Longrightarrow> buckets_bounded (dispatch_seq m calls)
       \<and> requests_per_minute (dispatch_seq m calls) = requests_per_minute m"
proof (induction calls arbitrary: m)
  case Nil
  then show ?case by simp
next
  case (Cons c cs)
  from dispatch_bounded[OF Cons.prems, of "call_request c" "call_next c" "call_t_default c" "call_now c"]
  show ?case using Cons.IH Cons.prems(1) by simp
qed

text \<open>
  C8: for a limiter constructed with a capacity \<open>rpm\<close> that is not negative, after any
  sequence of admission checks, by any clients and at any clock readings (also readings that
  go backwards), every stored token count is in \<open>[0, rpm]\<close>.
\<close>

theorem tokens_within_capacity:
  assumes "0 \<le> rpm"
    and "buckets (dispatch_seq (RateLimitMiddleware_init rpm) calls) key = Some (tokens, t)"
  shows "0 \<le> tokens \<and> tokens \<le> real_of_int rpm"
proof -
  have "buckets_bounded (RateLimitMiddleware_init rpm)"
    by (simp add: buckets_bounded_def RateLimitMiddleware_init_def)
  with dispatch_seq_bounded[of "RateLimitMiddleware_init rpm" calls] assms(1)
  have "buckets_bounded (dispatch_seq (RateLimitMiddleware_init rpm) calls)"
    and "requests_per_minute (dispatch_seq (RateLimitMiddleware_init rpm) calls) = rpm"
    by (simp_all add: RateLimitMiddleware_init_def)
  with assms(2) show ?thesis unfolding buckets_bounded_def by metis
qed

text \<open>
  C1, at the capacity 120: an empty bucket checked 30 seconds after its last refill is refilled
  to 30 tokens by the code, one token for each second, and to 60 tokens by the formula of the
  specification.
\<close>

theorem refill_ignores_capacity:
  "refill 120 0 0 30 = 30 \<and> spec_refill 120 0 30 = 60"
  by (simp add: refill_def spec_refill_def)

lemma refill_eq_spec_at_60:
  "refill 60 tokens lr now = spec_refill 60 tokens (now - lr)"
  by (simp add: refill_def spec_refill_def)


lemma dispatch_denied:
  assumes "tokens_after_refill m request t now < 1"
  shows "fst (dispatch m request cn t now) = Inr (JSONResponse 429 rate_limit_body)"
  using assms
  by (simp add: dispatch_def tokens_after_refill_def Let_def bucket_lookup_rpm split: prod.splits)
    (metis bucket_lookup_rpm fst_conv snd_conv)

lemma dispatch_admitted:
  assumes "\<not> tokens_after_refill m request t now < 1" and "cn request = Inr response"
  shows "fst (dispatch m request cn t now) =
           Inr (response\<lparr> headers := (headers response)
                  (''X-RateLimit-Limit'' \<mapsto> py_str_int (requests_per_minute m),
                   ''X-RateLimit-Remaining'' \<mapsto> py_str_int (py_int (tokens_after_refill m request t now - 1)),
                   ''X-RateLimit-Reset'' \<mapsto> py_str_int (py_int (now + 60))) \<rparr>)"
proof -
  obtain b m1 where l: "bucket_lookup m (client_ip_of request) t = (b, m1)" by (metis prod.exhaust)
  then have r: "requests_per_minute m1 = requests_per_minute m"
    using bucket_lookup_rpm[of m "client_ip_of request" t] by simp
  from l r assms show ?thesis
    by (simp add: dispatch_def tokens_after_refill_def Let_def)
qed

text \<open>
  C2 as amended: a denied request is answered with status 429 and the body
  \<^verbatim>\<open>{"detail": "Rate limit exceeded", "retry_after": 60}\<close>, and that response carries none of
  the three rate limit headers; an admitted request whose handler returns a response is
  answered with that response, to which the three headers are added.
\<close>

theorem dispatch_headers:
  "(tokens_after_refill m request t now < 1 \<longrightarrow>
      (\<exists>r. fst (dispatch m request cn t now) = Inr r
          \<and> status_code r = 429
          \<and> content r = PDict [(''detail'', PStr ''Rate limit exceeded''), (''retry_after'', PInt 60)]
          \<and> headers r ''X-RateLimit-Limit'' = None
          \<and> headers r ''X-RateLimit-Remaining'' = None
          \<and> headers r ''X-RateLimit-Reset'' = None))
   \<and> (\<not> tokens_after_refill m request t now < 1 \<longrightarrow>
      (\<forall>response. cn request = Inr response \<longrightarrow>
        (\<exists>r. fst (dispatch m request cn t now) = Inr r
          \<and> status_code r = status_code response
          \<and> content r = content response
          \<and> headers r ''X-RateLimit-Limit'' = Some (py_str_int (requests_per_minute m))
          \<and> headers r ''X-RateLimit-Remaining''
               = Some (py_str_int (py_int (tokens_after_refill m request t now - 1)))
          \<and> headers r ''X-RateLimit-Reset'' = Some (py_str_int (py_int (now + 60))))))"
proof (intro conjI impI allI)
  assume "tokens_after_refill m request t now < 1"
  from dispatch_denied[OF this, of cn]
  show "\<exists>r. fst (dispatch m request cn t now) = Inr r
          \<and> status_code r = 429
          \<and> content r = PDict [(''detail'', PStr ''Rate limit exceeded''), (''retry_after'', PInt 60)]
          \<and> headers r ''X-RateLimit-Limit'' = None
          \<and> headers r ''X-RateLimit-Remaining'' = None
          \<and> headers r ''X-RateLimit-Reset'' = None"
    by (simp add: JSONResponse_def rate_limit_body_def)
next
  fix response
  assume a: "\<not> tokens_after_refill m request t now < 1" and b: "cn request = Inr response"
  from dispatch_admitted[where cn=cn, OF a b]
  show "\<exists>r. fst (dispatch m request cn t now) = Inr r
          \<and> status_code r = status_code response
          \<and> content r = content response
          \<and> headers r ''X-RateLimit-Limit'' = Some (py_str_int (requests_per_minute m))
          \<and> headers r ''X-RateLimit-Remaining''
               = Some (py_str_int (py_int (tokens_after_refill m request t now - 1)))
          \<and> headers r ''X-RateLimit-Reset'' = Some (py_str_int (py_int (now + 60)))"
    by simp
qed

text \<open>
  C2 as stated fails: with a capacity of 1, the second request of a client half a second after
  its first is denied, and the 429 response has no \<^verbatim>\<open>X-RateLimit-Limit\<close> header.
\<close>

theorem denied_response_lacks_headers:
  "fst (dispatch (snd (dispatch (RateLimitMiddleware_init 1) \<lparr>client_host = Some ''10.0.0.1''\<rparr> root_handler 100 100))
          \<lparr>client_host = Some ''10.0.0.1''\<rparr> root_handler 100 100.5)
     = Inr (JSONResponse 429 rate_limit_body)
   \<and> status_code (JSONResponse 429 rate_limit_body) = 429
   \<and> headers (JSONResponse 429 rate_limit_body) ''X-RateLimit-Limit'' = None"
  by (simp add: dispatch_def bucket_lookup_def RateLimitMiddleware_init_def refill_def
       client_ip_of_def root_handler_def JSONResponse_def Let_def)


theorem tokens_within_capacity_witness:
  "(0::int) \<le> 2
   \<and> buckets (dispatch_seq (RateLimitMiddleware_init 2)
        [\<lparr>call_request = \<lparr>client_host = Some ''10.0.0.1''\<rparr>, call_next = root_handler,
          call_t_default = 100, call_now = 100\<rparr>,
         \<lparr>call_request = \<lparr>client_host = Some ''10.0.0.1''\<rparr>, call_next = root_handler,
          call_t_default = 101, call_now = 101\<rparr>,
         \<lparr>call_request = \<lparr>client_host = Some ''10.0.0.1''\<rparr>, call_next = root_handler,
          call_t_default = 131, call_now = 131\<rparr>]) ''10.0.0.1'' = Some (1, 131)
   \<and> (0::real) \<le> 1 \<and> (1::real) \<le> real_of_int 2"
proof -
  let ?calls = "[\<lparr>call_request = \<lparr>client_host = Some ''10.0.0.1''\<rparr>, call_next = root_handler,
          call_t_default = 100, call_now = 100\<rparr>,
         \<lparr>call_request = \<lparr>client_host = Some ''10.0.0.1''\<rparr>, call_next = root_handler,
          call_t_default = 101, call_now = 101\<rparr>,
         \<lparr>call_request = \<lparr>client_host = Some ''10.0.0.1''\<rparr>, call_next = root_handler,
          call_t_default = 131, call_now = 131\<rparr>]"
  have h1: "(0::int) \<le> 2" by simp
  have h2: "buckets (dispatch_seq (RateLimitMiddleware_init 2) ?calls) ''10.0.0.1'' = Some (1, 131)"
    by (simp add: dispatch_def bucket_lookup_def RateLimitMiddleware_init_def refill_def
          client_ip_of_def root_handler_def Let_def)
  from tokens_within_capacity[OF h1 h2] h1 h2 show ?thesis by simp
qed

theorem dispatch_headers_witness:
  "tokens_after_refill
      (snd (dispatch (RateLimitMiddleware_init 1) \<lparr>client_host = Some ''10.0.0.1''\<rparr> root_handler 100 100))
      \<lparr>client_host = Some ''10.0.0.1''\<rparr> 100 100.5 < 1
   \<and> (\<exists>r. fst (dispatch
              (snd (dispatch (RateLimitMiddleware_init 1) \<lparr>client_host = Some ''10.0.0.1''\<rparr> root_handler 100 100))
              \<lparr>client_host = Some ''10.0.0.1''\<rparr> root_handler 100 100.5) = Inr r
          \<and> status_code r = 429
          \<and> content r = PDict [(''detail'', PStr ''Rate limit exceeded''), (''retry_after'', PInt 60)]
          \<and> headers r ''X-RateLimit-Limit'' = None)
   \<and> \<not> tokens_after_refill (RateLimitMiddleware_init 120) \<lparr>client_host = Some ''10.0.0.1''\<rparr> 100 100 < 1
   \<and> (\<exists>response. root_handler \<lparr>client_host = Some ''10.0.0.1''\<rparr> = Inr response
        \<and> (\<exists>r. fst (dispatch (RateLimitMiddleware_init 120) \<lparr>client_host = Some ''10.0.0.1''\<rparr> root_handler 100 100) = Inr r
          \<and> status_code r = 200
          \<and> headers r ''X-RateLimit-Limit'' = Some ''120''
          \<and> headers r ''X-RateLimit-Remaining'' = Some ''119''
          \<and> headers r ''X-RateLimit-Reset'' = Some ''160''))"
proof -
  let ?req = "\<lparr>client_host = Some ''10.0.0.1''\<rparr>"
  let ?m1 = "snd (dispatch (RateLimitMiddleware_init 1) ?req root_handler 100 100)"
  let ?m = "RateLimitMiddleware_init 120"
  let ?resp = "JSONResponse 200
     (PDict [(''message'', PStr ''Jarvis Core API''), (''version'', PStr ''0.1.0''),
             (''status'', PStr ''running'')])"
  have d: "tokens_after_refill ?m1 ?req 100 100.5 = 1 / 2"
    by (simp add: tokens_after_refill_def dispatch_def bucket_lookup_def RateLimitMiddleware_init_def
          refill_def client_ip_of_def root_handler_def Let_def)
  then have d1: "tokens_after_refill ?m1 ?req 100 100.5 < 1" by simp
  have a: "tokens_after_refill ?m ?req 100 100 = 120"
    by (simp add: tokens_after_refill_def bucket_lookup_def RateLimitMiddleware_init_def
          refill_def client_ip_of_def)
  then have a1: "\<not> tokens_after_refill ?m ?req 100 100 < 1" by simp
  have rr: "root_handler ?req = Inr ?resp" by (simp add: root_handler_def)
  have s1: "py_str_int 120 = ''120''" by code_simp
  have s2: "py_str_int (py_int 119) = ''119''" by code_simp
  have s3: "py_str_int (py_int 160) = ''160''" by code_simp
  have rpm: "requests_per_minute ?m = 120" by (simp add: RateLimitMiddleware_init_def)
  from dispatch_headers[of ?m1 ?req 100 "100.5" root_handler] d1
  have c1: "\<exists>r. fst (dispatch ?m1 ?req root_handler 100 100.5) = Inr r
          \<and> status_code r = 429
          \<and> content r = PDict [(''detail'', PStr ''Rate limit exceeded''), (''retry_after'', PInt 60)]
          \<and> headers r ''X-RateLimit-Limit'' = None"
    by blast
  from dispatch_headers[of ?m ?req 100 100 root_handler] a1 rr
  obtain r where r: "fst (dispatch ?m ?req root_handler 100 100) = Inr r"
      "status_code r = status_code ?resp"
      "headers r ''X-RateLimit-Limit'' = Some (py_str_int (requests_per_minute ?m))"
      "headers r ''X-RateLimit-Remaining''
               = Some (py_str_int (py_int (tokens_after_refill ?m ?req 100 100 - 1)))"
      "headers r ''X-RateLimit-Reset'' = Some (py_str_int (py_int (100 + 60)))"
    by blast
  from r have "fst (dispatch ?m ?req root_handler 100 100) = Inr r
          \<and> status_code r = 200
          \<and> headers r ''X-RateLimit-Limit'' = Some ''120''
          \<and> headers r ''X-RateLimit-Remaining'' = Some ''119''
          \<and> headers r ''X-RateLimit-Reset'' = Some ''160''"
    by (simp add: a rpm s1 s2 s3 JSONResponse_def)
  with rr have c2: "\<exists>response. root_handler ?req = Inr response
        \<and> (\<exists>r. fst (dispatch ?m ?req root_handler 100 100) = Inr r
          \<and> status_code r = 200
          \<and> headers r ''X-RateLimit-Limit'' = Some ''120''
          \<and> headers r ''X-RateLimit-Remaining'' = Some ''119''
          \<and> headers r ''X-RateLimit-Reset'' = Some ''160'')"
    by blast
  from d1 c1 a1 c2 show ?thesis by blast
qed


section \<open>Properties of the redactor\<close>

lemma rmatch_Chars_E:
  "(p', rest) \<in> set (rmatch (Chars cls) (p, s)) \<Longrightarrow> \<exists>c. s = c # rest \<and> in_class cls c"
  by (auto split: list.splits if_splits)

lemma rep_greedy_chars:
  assumes f: "\<And>p s p' rest. (p', rest) \<in> set (f (p, s)) \<Longrightarrow> \<exists>c. s = c # rest \<and> in_class cls c"
  shows "(p', rest) \<in> set (rep_greedy f lo n (p, s))
   \<Longrightarrow> \<exists>m. s = m @ rest \<and> (\<forall>c \<in> set m. in_class cls c)"
proof (induction n arbitrary: lo p s)
  case 0
  then show ?case by (auto split: if_splits)
next
  case (Suc n)
  from Suc.prems consider
      (step) q cs where "(q, cs) \<in> set (f (p, s))"
        and "(p', rest) \<in> set (if length cs < length s
                                 then rep_greedy f (lo - 1) n (q, cs) else [(q, cs)])"
    | (stop) "(p', rest) = (p, s)"
    by (auto split: if_splits)
  then show ?case
  proof cases
    case step
    from f[OF step(1)] obtain c where c: "s = c # cs" "in_class cls c" by blast
    with step(2) have "(p', rest) \<in> set (rep_greedy f (lo - 1) n (q, cs))"
      by simp
    from Suc.IH[OF this] obtain m where "cs = m @ rest" "\<forall>c \<in> set m. in_class cls c" by blast
    with c have "s = (c # m) @ rest \<and> (\<forall>c \<in> set (c # m). in_class cls c)" by simp
    then show ?thesis by blast
  next
    case stop
    then have "s = [] @ rest \<and> (\<forall>c \<in> set []. in_class cls c)" by simp
    then show ?thesis by blast
  qed
qed

lemma rmatch_Rep_Chars_E:
  assumes "(p', rest) \<in> set (rmatch (Rep (Chars cls) lo hi) (p, s))"
  shows "\<exists>m. s = m @ rest \<and> (\<forall>c \<in> set m. in_class cls c)"
proof -
  from assms have "(p', rest) \<in> set (rep_greedy (rmatch (Chars cls)) lo
      (case hi of None \<Rightarrow> length (snd (p, s)) | Some h \<Rightarrow> h) (p, s))"
    by (simp only: rmatch.simps)
  moreover have "\<And>p s p' rest. (p', rest) \<in> set (rmatch (Chars cls) (p, s))
      \<Longrightarrow> \<exists>c. s = c # rest \<and> in_class cls c"
    by (rule rmatch_Chars_E)
  ultimately show ?thesis
    using rep_greedy_chars[where f="rmatch (Chars cls)" and cls=cls] by blast
qed

lemma seq_Cons: "seq (r # rs) = Then r (seq rs)"
  by (simp add: seq_def)

lemma rmatch_seq_Cons_E:
  assumes "x \<in> set (rmatch (seq (r # rs)) st)"
  shows "\<exists>p1 s1. (p1, s1) \<in> set (rmatch r st) \<and> x \<in> set (rmatch (seq rs) (p1, s1))"
  using assms unfolding seq_Cons by auto

lemma rmatch_seq_Nil_E: "x \<in> set (rmatch (seq []) st) \<Longrightarrow> x = st"
  by (simp add: seq_def)

lemma rmatch_WordB_E: "x \<in> set (rmatch WordB st) \<Longrightarrow> x = st"
  by (auto split: if_splits)

lemma split_on_absent: "c \<notin> set w \<Longrightarrow> split_on c w = [w]"
  by (induction w) auto

lemma split_on_append: "c \<notin> set u \<Longrightarrow> split_on c (u @ c # v) = u # split_on c v"
  by (induction u) auto


lemma email_match_shape:
  assumes "(p', rest) \<in> set (rmatch email_pattern (p, s))"
  shows "\<exists>u d. s = (u @ CHR ''@'' # d) @ rest \<and> CHR ''@'' \<notin> set u \<and> CHR ''@'' \<notin> set d"
proof -
  let ?U = "[(CHR ''A'', CHR ''Z''), (CHR ''a'', CHR ''z''), (CHR ''0'', CHR ''9''),
             one CHR ''.'', one CHR ''_'', one CHR ''%'', one CHR ''+'', one CHR ''-'']"
  let ?D = "[(CHR ''A'', CHR ''Z''), (CHR ''a'', CHR ''z''), (CHR ''0'', CHR ''9''),
             one CHR ''.'', one CHR ''-'']"
  let ?T = "[(CHR ''A'', CHR ''Z''), one CHR ''|'', (CHR ''a'', CHR ''z'')]"
  have nU: "\<not> in_class ?U CHR ''@''" and nD: "\<not> in_class ?D CHR ''@''"
    and nT: "\<not> in_class ?T CHR ''@''" and nP: "\<not> in_class [one CHR ''.''] CHR ''@''"
    by (simp_all add: in_class_def one_def less_eq_char_def)
  from assms have r0: "(p', rest) \<in> set (rmatch (seq [WordB, Rep (Chars ?U) 1 None,
      Chars [one CHR ''@''], Rep (Chars ?D) 1 None, Chars [one CHR ''.''],
      Rep (Chars ?T) 2 None, WordB]) (p, s))"
    unfolding email_pattern_def .
  from rmatch_seq_Cons_E[OF r0] obtain p1 s1 where
    1: "(p1, s1) \<in> set (rmatch WordB (p, s))" and
    r1: "(p', rest) \<in> set (rmatch (seq [Rep (Chars ?U) 1 None, Chars [one CHR ''@''],
            Rep (Chars ?D) 1 None, Chars [one CHR ''.''], Rep (Chars ?T) 2 None, WordB]) (p1, s1))"
    by blast
  from rmatch_WordB_E[OF 1] have s1: "s1 = s" by simp
  from rmatch_seq_Cons_E[OF r1] obtain p2 s2 where
    2: "(p2, s2) \<in> set (rmatch (Rep (Chars ?U) 1 None) (p1, s1))" and
    r2: "(p', rest) \<in> set (rmatch (seq [Chars [one CHR ''@''],
            Rep (Chars ?D) 1 None, Chars [one CHR ''.''], Rep (Chars ?T) 2 None, WordB]) (p2, s2))"
    by blast
  from rmatch_Rep_Chars_E[OF 2] obtain u where u: "s1 = u @ s2" "\<forall>c \<in> set u. in_class ?U c"
    by blast
  from rmatch_seq_Cons_E[OF r2] obtain p3 s3 where
    3: "(p3, s3) \<in> set (rmatch (Chars [one CHR ''@'']) (p2, s2))" and
    r3: "(p', rest) \<in> set (rmatch (seq [Rep (Chars ?D) 1 None, Chars [one CHR ''.''],
            Rep (Chars ?T) 2 None, WordB]) (p3, s3))"
    by blast
  from rmatch_Chars_E[OF 3] obtain a where a: "s2 = a # s3" "in_class [one CHR ''@''] a"
    by blast
  then have a': "a = CHR ''@''" by (auto simp: in_class_def one_def)
  from rmatch_seq_Cons_E[OF r3] obtain p4 s4 where
    4: "(p4, s4) \<in> set (rmatch (Rep (Chars ?D) 1 None) (p3, s3))" and
    r4: "(p', rest) \<in> set (rmatch (seq [Chars [one CHR ''.''],
            Rep (Chars ?T) 2 None, WordB]) (p4, s4))"
    by blast
  from rmatch_Rep_Chars_E[OF 4] obtain d where d: "s3 = d @ s4" "\<forall>c \<in> set d. in_class ?D c"
    by blast
  from rmatch_seq_Cons_E[OF r4] obtain p5 s5 where
    5: "(p5, s5) \<in> set (rmatch (Chars [one CHR ''.'']) (p4, s4))" and
    r5: "(p', rest) \<in> set (rmatch (seq [Rep (Chars ?T) 2 None, WordB]) (p5, s5))"
    by blast
  from rmatch_Chars_E[OF 5] obtain b where b: "s4 = b # s5" "in_class [one CHR ''.''] b"
    by blast
  from rmatch_seq_Cons_E[OF r5] obtain p6 s6 where
    6: "(p6, s6) \<in> set (rmatch (Rep (Chars ?T) 2 None) (p5, s5))" and
    r6: "(p', rest) \<in> set (rmatch (seq [WordB]) (p6, s6))"
    by blast
  from rmatch_Rep_Chars_E[OF 6] obtain t where t: "s5 = t @ s6" "\<forall>c \<in> set t. in_class ?T c"
    by blast
  from rmatch_seq_Cons_E[OF r6] obtain p7 s7 where
    7: "(p7, s7) \<in> set (rmatch WordB (p6, s6))" and
    r7: "(p', rest) \<in> set (rmatch (seq []) (p7, s7))"
    by blast
  from rmatch_WordB_E[OF 7] rmatch_seq_Nil_E[OF r7] have "s6 = rest" by simp
  with s1 u(1) a(1) a' d(1) b(1) t(1) have "s = (u @ CHR ''@'' # (d @ b # t)) @ rest" by simp
  moreover have "CHR ''@'' \<notin> set u" using u(2) nU by blast
  moreover have "b \<noteq> CHR ''@''" using b(2) nP by blast
  moreover have "CHR ''@'' \<notin> set d" using d(2) nD by blast
  moreover have "CHR ''@'' \<notin> set t" using t(2) nT by blast
  ultimately have "s = (u @ CHR ''@'' # (d @ b # t)) @ rest \<and> CHR ''@'' \<notin> set u
      \<and> CHR ''@'' \<notin> set (d @ b # t)" by simp
  then show ?thesis by blast
qed

lemma take_matched: "take (length (m @ rest) - length rest) (m @ rest) = m"
  by simp

lemma mask_email_repl_total:
  assumes "(p', rest) \<in> set (rmatch email_pattern (p, s))"
  shows "\<exists>t. mask_email_repl (take (length s - length rest) s) = Inr t"
proof -
  from email_match_shape[OF assms] obtain u d where
    s: "s = (u @ CHR ''@'' # d) @ rest" and n: "CHR ''@'' \<notin> set u" "CHR ''@'' \<notin> set d"
    by blast
  have "take (length s - length rest) s = u @ CHR ''@'' # d"
    unfolding s by (rule take_matched)
  moreover have "split_on CHR ''@'' (u @ CHR ''@'' # d) = [u, d]"
    using n by (simp add: split_on_append split_on_absent)
  ultimately show ?thesis by (simp add: mask_email_repl_def)
qed


lemma re_sub_total:
  assumes "\<forall>p s p' rest. (p', rest) \<in> set (rmatch r (p, s))
            \<longrightarrow> (\<exists>t. f (take (length s - length rest) s) = Inr t)"
  shows "\<exists>t. re_sub r f prev s = Inr t"
  using assms
proof (induction r f prev s rule: re_sub.induct)
  case (1 r f prev s)
  show ?case
  proof (cases "rmatch r (prev, s)")
    case Nil
    show ?thesis
    proof (cases s)
      case Nil
      with \<open>rmatch r (prev, s) = []\<close> show ?thesis by (simp add: re_sub.simps[of r f prev "[]"])
    next
      case (Cons c cs)
      from "1.IH"(1)[OF \<open>rmatch r (prev, s) = []\<close> Cons "1.prems"]
      obtain out where "re_sub r f (Some c) cs = Inr out" by blast
      with \<open>rmatch r (prev, s) = []\<close> Cons show ?thesis
        by (simp add: re_sub.simps[of r f prev "c # cs"])
    qed
  next
    case (Cons st sts)
    obtain p rest where st: "st = (p, rest)" by (cases st)
    have "(p, rest) \<in> set (rmatch r (prev, s))" using Cons st by simp
    with "1.prems" obtain repl where
      repl: "f (take (length s - length rest) s) = Inr repl" by blast
    show ?thesis
    proof (cases "length s - length rest = 0")
      case z: True
      show ?thesis
      proof (cases s)
        case Nil
        with Cons st repl z show ?thesis by (simp add: re_sub.simps[of r f prev "[]"])
      next
        case c: (Cons c cs)
        from "1.IH"(2)[OF Cons st[symmetric] repl z c "1.prems"]
        obtain out where "re_sub r f (Some c) cs = Inr out" by blast
        with Cons st repl z c show ?thesis
          by (simp add: re_sub.simps[of r f prev "c # cs"])
      qed
    next
      case nz: False
      from "1.IH"(3)[OF Cons st[symmetric] repl nz "1.prems"]
      obtain out where "re_sub r f (Some (last (take (length s - length rest) s)))
                          (drop (length s - length rest) s) = Inr out" by blast
      with Cons st repl nz show ?thesis
        by (simp add: re_sub.simps[of r f prev s])
    qed
  qed
qed


lemma sub_each_total:
  assumes "\<forall>m. \<exists>t. f m = Inr t"
  shows "\<exists>t. sub_each ps f s = Inr t"
proof (induction ps arbitrary: s)
  case Nil
  show ?case by simp
next
  case (Cons r rs)
  from assms have "\<exists>t. re_sub r f None s = Inr t" by (intro re_sub_total) simp
  then obtain t where "re_sub r f None s = Inr t" by blast
  with Cons[of t] show ?case by simp
qed

lemma mask_oauth_repl_total: "\<forall>m. \<exists>t. mask_oauth_repl m = Inr t"
  by (simp add: mask_oauth_repl_def)

lemma mask_iban_repl_total: "\<forall>m. \<exists>t. mask_iban_repl m = Inr t"
  by (simp add: mask_iban_repl_def)

lemma mask_credit_card_repl_total: "\<forall>m. \<exists>t. mask_credit_card_repl m = Inr t"
  by (simp add: mask_credit_card_repl_def)

lemma mask_api_key_repl_total: "\<forall>m. \<exists>t. mask_api_key_repl m = Inr t"
  by (simp add: mask_api_key_repl_def)

lemma mask_phone_repl_total: "\<forall>m. \<exists>t. mask_phone_repl m = Inr t"
  by (simp add: mask_phone_repl_def)

lemma mask_jwt_repl_total: "\<forall>m. \<exists>t. mask_jwt_repl m = Inr t"
  by (auto simp: mask_jwt_repl_def split: list.splits)

lemma mask_email_total: "\<exists>t. mask_email text = Inr t"
  unfolding mask_email_def using mask_email_repl_total by (intro re_sub_total) blast

lemma mask_all_total: "\<exists>t. mask_all text = Inr t"
proof -
  obtain t1 where 1: "mask_email text = Inr t1" using mask_email_total by blast
  obtain t2 where 2: "mask_phone t1 = Inr t2"
    unfolding mask_phone_def using sub_each_total[OF mask_phone_repl_total] by blast
  obtain t3 where 3: "mask_jwt t2 = Inr t3"
    unfolding mask_jwt_def using re_sub_total[of jwt_pattern mask_jwt_repl] mask_jwt_repl_total by blast
  obtain t4 where 4: "mask_oauth t3 = Inr t4"
    unfolding mask_oauth_def using re_sub_total[of oauth_pattern mask_oauth_repl] mask_oauth_repl_total by blast
  obtain t5 where 5: "mask_iban t4 = Inr t5"
    unfolding mask_iban_def using re_sub_total[of iban_pattern mask_iban_repl] mask_iban_repl_total by blast
  obtain t6 where 6: "mask_credit_card t5 = Inr t6"
    unfolding mask_credit_card_def using re_sub_total[of credit_card_pattern mask_credit_card_repl] mask_credit_card_repl_total by blast
  obtain t7 where 7: "mask_api_keys t6 = Inr t7"
    unfolding mask_api_keys_def using sub_each_total[OF mask_api_key_repl_total] by blast
  show ?thesis by (simp add: mask_all_def and_then_def 1 2 3 4 5 6 7)
qed

lemma frame_dict_refl_aux:
  "\<forall>kv \<in> set d. frame_value (snd kv) (snd kv) \<Longrightarrow> frame_dict d d"
  by (induction d) auto

lemma frame_list_refl_aux:
  "\<forall>x \<in> set xs. frame_value x x \<Longrightarrow> frame_list xs xs"
  by (induction xs) auto

lemma frame_value_refl: "frame_value v v"
proof (induction v)
  case (PDict d)
  have "\<forall>kv \<in> set d. frame_value (snd kv) (snd kv)"
  proof
    fix kv assume "kv \<in> set d"
    moreover have "snd kv \<in> Basic_BNFs.snds kv" by (cases kv) simp
    ultimately show "frame_value (snd kv) (snd kv)" using PDict by blast
  qed
  then have "frame_dict d d" by (rule frame_dict_refl_aux)
  then show ?case by simp
next
  case (PList xs)
  then have "frame_list xs xs" by (intro frame_list_refl_aux) blast
  then show ?case by simp
qed simp_all

lemma mask_total_frame:
  "\<exists>d'. mask_dict d = Inr d' \<and> map fst d' = map fst d \<and> frame_dict d d'"
  "\<exists>v'. mask_value v = Inr v' \<and> frame_value v v'"
  "\<exists>xs'. mask_items xs = Inr xs' \<and> frame_list xs xs'"
  "\<exists>x'. mask_item x = Inr x' \<and> frame_value x x'"
proof (induction d and v and xs and x rule: mask_dict_mask_value_mask_items_mask_item.induct)
  case (2 key v rest)
  then show ?case by (auto simp: and_then_def)
next
  case (3 s)
  then show ?case using mask_all_total[of s] by (auto simp: and_then_def)
next
  case (10 s)
  then show ?case using mask_all_total[of s] by (auto simp: and_then_def)
qed (auto simp: and_then_def frame_value_refl)


lemma mask_dict_nth:
  "mask_dict d = Inr d' \<Longrightarrow> i < length d \<Longrightarrow> mask_value (snd (d ! i)) = Inr (snd (d' ! i))"
proof (induction d arbitrary: d' i)
  case Nil
  then show ?case by simp
next
  case (Cons kv d)
  obtain k v where kv: "kv = (k, v)" by (cases kv)
  from Cons.prems(1) kv obtain v' rest' where
    v': "mask_value v = Inr v'" and rest': "mask_dict d = Inr rest'" and d': "d' = (k, v') # rest'"
    by (auto simp: and_then_def split: sum.splits)
  show ?case
  proof (cases i)
    case 0
    then show ?thesis using kv v' d' by simp
  next
    case (Suc j)
    then show ?thesis using Cons.IH[OF rest', of j] Cons.prems(2) kv d' by simp
  qed
qed

lemma mask_items_nth:
  "mask_items xs = Inr xs' \<Longrightarrow>
     length xs' = length xs \<and> (\<forall>j < length xs. mask_item (xs ! j) = Inr (xs' ! j))"
proof (induction xs arbitrary: xs')
  case Nil
  then show ?case by simp
next
  case (Cons x xs)
  from Cons.prems obtain x' rest' where
    x': "mask_item x = Inr x'" and rest': "mask_items xs = Inr rest'" and xs': "xs' = x' # rest'"
    by (auto simp: and_then_def split: sum.splits)
  from Cons.IH[OF rest'] have ih: "length rest' = length xs"
    "\<forall>j < length xs. mask_item (xs ! j) = Inr (rest' ! j)" by simp_all
  have "\<forall>j < length (x # xs). mask_item ((x # xs) ! j) = Inr (xs' ! j)"
  proof (intro allI impI)
    fix j assume "j < length (x # xs)"
    then show "mask_item ((x # xs) ! j) = Inr (xs' ! j)"
      using x' xs' ih(2) by (cases j) simp_all
  qed
  with ih(1) xs' show ?case by simp
qed

text \<open>
  What the list comprehension of \<^verbatim>\<open>mask_dict\<close> does, element by element: the result has the
  length of the list; an element that is a string is replaced by \<^verbatim>\<open>mask_all\<close> of it, an
  element that is a dict by \<^verbatim>\<open>mask_dict\<close> of it, and every other element, a list among
  them, is the element of the input.
\<close>

lemma mask_items_elementwise:
  "\<exists>xs'. mask_items xs = Inr xs'
     \<and> length xs' = length xs
     \<and> (\<forall>j < length xs.
           (\<forall>s. xs ! j = PStr s \<longrightarrow> (\<exists>s'. mask_all s = Inr s' \<and> xs' ! j = PStr s'))
         \<and> (\<forall>d. xs ! j = PDict d \<longrightarrow> (\<exists>d'. mask_dict d = Inr d' \<and> xs' ! j = PDict d'))
         \<and> ((\<forall>s. xs ! j \<noteq> PStr s) \<and> (\<forall>d. xs ! j \<noteq> PDict d) \<longrightarrow> xs' ! j = xs ! j))"
proof -
  from mask_total_frame(3)[of xs] obtain xs' where xs': "mask_items xs = Inr xs'" by blast
  from mask_items_nth[OF xs'] have l: "length xs' = length xs"
    and n: "\<forall>j < length xs. mask_item (xs ! j) = Inr (xs' ! j)" by simp_all
  have "\<forall>j < length xs.
           (\<forall>s. xs ! j = PStr s \<longrightarrow> (\<exists>s'. mask_all s = Inr s' \<and> xs' ! j = PStr s'))
         \<and> (\<forall>d. xs ! j = PDict d \<longrightarrow> (\<exists>d'. mask_dict d = Inr d' \<and> xs' ! j = PDict d'))
         \<and> ((\<forall>s. xs ! j \<noteq> PStr s) \<and> (\<forall>d. xs ! j \<noteq> PDict d) \<longrightarrow> xs' ! j = xs ! j)"
  proof (intro allI impI)
    fix j assume "j < length xs"
    with n have m: "mask_item (xs ! j) = Inr (xs' ! j)" by simp
    show "(\<forall>s. xs ! j = PStr s \<longrightarrow> (\<exists>s'. mask_all s = Inr s' \<and> xs' ! j = PStr s'))
         \<and> (\<forall>d. xs ! j = PDict d \<longrightarrow> (\<exists>d'. mask_dict d = Inr d' \<and> xs' ! j = PDict d'))
         \<and> ((\<forall>s. xs ! j \<noteq> PStr s) \<and> (\<forall>d. xs ! j \<noteq> PDict d) \<longrightarrow> xs' ! j = xs ! j)"
      using m by (cases "xs ! j") (auto simp: and_then_def split: sum.splits)
  qed
  with xs' l show ?thesis by blast
qed

text \<open>
  What \<^verbatim>\<open>mask_dict\<close> does for every dict: it returns a dict (it does not raise). The result
  has the keys of the input, unchanged and in the same order, whatever text a key is; it differs
  from the input at most in the text of strings; a string value is replaced by \<^verbatim>\<open>mask_all\<close>
  of it, a dict value by \<^verbatim>\<open>mask_dict\<close> of it, a list value by the list that
  \<open>mask_items_elementwise\<close> describes, and a value of any other kind is the value of the
  input.
\<close>

lemma mask_dict_keys_and_frame:
  "\<exists>d'. mask_dict d = Inr d'
     \<and> map fst d' = map fst d
     \<and> frame_dict d d'
     \<and> (\<forall>i < length d.
           (\<forall>s. snd (d ! i) = PStr s \<longrightarrow> (\<exists>s'. mask_all s = Inr s' \<and> snd (d' ! i) = PStr s'))
         \<and> (\<forall>sub. snd (d ! i) = PDict sub \<longrightarrow>
               (\<exists>sub'. mask_dict sub = Inr sub' \<and> snd (d' ! i) = PDict sub'))
         \<and> (\<forall>xs. snd (d ! i) = PList xs \<longrightarrow>
               (\<exists>xs'. mask_items xs = Inr xs' \<and> snd (d' ! i) = PList xs'))
         \<and> ((\<forall>s. snd (d ! i) \<noteq> PStr s) \<and> (\<forall>sub. snd (d ! i) \<noteq> PDict sub)
              \<and> (\<forall>xs. snd (d ! i) \<noteq> PList xs) \<longrightarrow> snd (d' ! i) = snd (d ! i)))"
proof -
  from mask_total_frame(1)[of d] obtain d' where
    d': "mask_dict d = Inr d'" "map fst d' = map fst d" "frame_dict d d'" by blast
  have "\<forall>i < length d.
           (\<forall>s. snd (d ! i) = PStr s \<longrightarrow> (\<exists>s'. mask_all s = Inr s' \<and> snd (d' ! i) = PStr s'))
         \<and> (\<forall>sub. snd (d ! i) = PDict sub \<longrightarrow>
               (\<exists>sub'. mask_dict sub = Inr sub' \<and> snd (d' ! i) = PDict sub'))
         \<and> (\<forall>xs. snd (d ! i) = PList xs \<longrightarrow>
               (\<exists>xs'. mask_items xs = Inr xs' \<and> snd (d' ! i) = PList xs'))
         \<and> ((\<forall>s. snd (d ! i) \<noteq> PStr s) \<and> (\<forall>sub. snd (d ! i) \<noteq> PDict sub)
              \<and> (\<forall>xs. snd (d ! i) \<noteq> PList xs) \<longrightarrow> snd (d' ! i) = snd (d ! i))"
  proof (intro allI impI)
    fix i assume "i < length d"
    from mask_dict_nth[OF d'(1) this] have m: "mask_value (snd (d ! i)) = Inr (snd (d' ! i))" .
    show "(\<forall>s. snd (d ! i) = PStr s \<longrightarrow> (\<exists>s'. mask_all s = Inr s' \<and> snd (d' ! i) = PStr s'))
         \<and> (\<forall>sub. snd (d ! i) = PDict sub \<longrightarrow>
               (\<exists>sub'. mask_dict sub = Inr sub' \<and> snd (d' ! i) = PDict sub'))
         \<and> (\<forall>xs. snd (d ! i) = PList xs \<longrightarrow>
               (\<exists>xs'. mask_items xs = Inr xs' \<and> snd (d' ! i) = PList xs'))
         \<and> ((\<forall>s. snd (d ! i) \<noteq> PStr s) \<and> (\<forall>sub. snd (d ! i) \<noteq> PDict sub)
              \<and> (\<forall>xs. snd (d ! i) \<noteq> PList xs) \<longrightarrow> snd (d' ! i) = snd (d ! i))"
      using m by (cases "snd (d ! i)") (auto simp: and_then_def split: sum.splits)
  qed
  with d' show ?thesis by blast
qed

lemma mask_dict_keys_and_frame_example:
  "mask_dict [(''john.doe@example.com'', PStr ''john.doe@example.com''),
              (''n'', PInt 3),
              (''b'', PDict [(''c'', PStr ''4111 1111 1111 1111'')]),
              (''l'', PList [PStr ''john.doe@example.com'', PBool True])]
   = Inr [(''john.doe@example.com'', PStr ''jo******@ex*********''),
          (''n'', PInt 3),
          (''b'', PDict [(''c'', PStr ''4111***********1111'')]),
          (''l'', PList [PStr ''jo******@ex*********'', PBool True])]
   \<and> (1::nat) < length [(''john.doe@example.com'', PStr ''john.doe@example.com''),
              (''n'', PInt 3),
              (''b'', PDict [(''c'', PStr ''4111 1111 1111 1111'')]),
              (''l'', PList [PStr ''john.doe@example.com'', PBool True])]
   \<and> (\<exists>d'. mask_dict [(''john.doe@example.com'', PStr ''john.doe@example.com''),
              (''n'', PInt 3),
              (''b'', PDict [(''c'', PStr ''4111 1111 1111 1111'')]),
              (''l'', PList [PStr ''john.doe@example.com'', PBool True])] = Inr d'
         \<and> map fst d' = [''john.doe@example.com'', ''n'', ''b'', ''l'']
         \<and> snd (d' ! 1) = PInt 3)"
proof -
  let ?d = "[(''john.doe@example.com'', PStr ''john.doe@example.com''),
              (''n'', PInt 3),
              (''b'', PDict [(''c'', PStr ''4111 1111 1111 1111'')]),
              (''l'', PList [PStr ''john.doe@example.com'', PBool True])]"
  have r: "mask_dict ?d = Inr [(''john.doe@example.com'', PStr ''jo******@ex*********''),
          (''n'', PInt 3),
          (''b'', PDict [(''c'', PStr ''4111***********1111'')]),
          (''l'', PList [PStr ''jo******@ex*********'', PBool True])]"
    by code_simp
  have l: "(1::nat) < length ?d" by simp
  from mask_dict_keys_and_frame[of ?d] obtain d' where
    d': "mask_dict ?d = Inr d'" and k: "map fst d' = map fst ?d"
    and i: "\<forall>i < length ?d.
           (\<forall>s. snd (?d ! i) = PStr s \<longrightarrow> (\<exists>s'. mask_all s = Inr s' \<and> snd (d' ! i) = PStr s'))
         \<and> (\<forall>sub. snd (?d ! i) = PDict sub \<longrightarrow>
               (\<exists>sub'. mask_dict sub = Inr sub' \<and> snd (d' ! i) = PDict sub'))
         \<and> (\<forall>xs. snd (?d ! i) = PList xs \<longrightarrow>
               (\<exists>xs'. mask_items xs = Inr xs' \<and> snd (d' ! i) = PList xs'))
         \<and> ((\<forall>s. snd (?d ! i) \<noteq> PStr s) \<and> (\<forall>sub. snd (?d ! i) \<noteq> PDict sub)
              \<and> (\<forall>xs. snd (?d ! i) \<noteq> PList xs) \<longrightarrow> snd (d' ! i) = snd (?d ! i))"
    by blast
  from i l have "(\<forall>s. snd (?d ! 1) \<noteq> PStr s) \<and> (\<forall>sub. snd (?d ! 1) \<noteq> PDict sub)
              \<and> (\<forall>xs. snd (?d ! 1) \<noteq> PList xs) \<longrightarrow> snd (d' ! 1) = snd (?d ! 1)"
    by blast
  then have "snd (d' ! 1) = PInt 3" by simp
  with d' k have "\<exists>d'. mask_dict ?d = Inr d'
         \<and> map fst d' = [''john.doe@example.com'', ''n'', ''b'', ''l'']
         \<and> snd (d' ! 1) = PInt 3"
    by auto
  with r l show ?thesis by blast
qed

text \<open>
  C10, at a list inside a list: \<^verbatim>\<open>mask_dict({"l": [["john.doe@example.com"]]})\<close> returns its
  input, the address unmasked, since an element of a list that is itself a list is kept as it
  is; the same address as a direct element of the list value is masked.
\<close>

theorem mask_dict_list_in_list_unmasked:
  "mask_dict [(''l'', PList [PList [PStr ''john.doe@example.com'']])]
     = Inr [(''l'', PList [PList [PStr ''john.doe@example.com'']])]
   \<and> mask_dict [(''l'', PList [PStr ''john.doe@example.com''])]
     = Inr [(''l'', PList [PStr ''jo******@ex*********''])]"
  by code_simp

text \<open>
  C7: \<^verbatim>\<open>mask_all("john.doe@example.com")\<close> is \<^verbatim>\<open>"jo******@ex*********"\<close> and
  \<^verbatim>\<open>mask_all("4111 1111 1111 1111")\<close> is \<^verbatim>\<open>"4111***********1111"\<close>.
\<close>

theorem mask_all_examples:
  "mask_all ''john.doe@example.com'' = Inr ''jo******@ex*********''
   \<and> mask_all ''4111 1111 1111 1111'' = Inr ''4111***********1111''"
  by code_simp


end
